theory Spec2Isabelle
  imports Complex_Main "HOL-Library.Multiset"
begin

section \<open>JavaScript values used by the find command\<close>

text \<open>
  A JavaScript string is a sequence of code units. It is modelled as a HOL \<open>string\<close>,
  so the code units are those below 256. A JavaScript number that holds an integer is an
  \<open>int\<close>; \<open>NaN\<close> is \<open>None\<close> of an \<open>int option\<close>.

  What the program can throw: \<open>new RegExp\<close> raises a \<open>SyntaxError\<close>, and the host's
  \<open>readdir\<close> may reject. \<open>RegExpUnmodelled\<close> is not an exception of the program: it marks
  regular-expression syntax (groups, alternation, lazy and counted quantifiers, escapes
  other than identity escapes outside a class) that the engine model below does not
  interpret. \<open>matchGlob\<close> never produces it (lemma \<open>matchGlob_modelled\<close>).
\<close>

datatype thrown = RegExpSyntaxError | RegExpUnmodelled | ReaddirFailed

definition startsWith :: "string \<Rightarrow> string \<Rightarrow> bool" where
  "startsWith s p = (take (length p) s = p)"

definition orElse :: "string \<Rightarrow> string \<Rightarrow> string" where
  \<comment> \<open>\<open>a || b\<close> on strings: the empty string is falsy.\<close>
  "orElse a b = (if a = [] then b else a)"

definition lastSegment :: "string \<Rightarrow> string" where
  \<comment> \<open>\<open>s.split("/").pop()\<close>: what follows the last slash.\<close>
  "lastSegment s = rev (takeWhile (\<lambda>c. c \<noteq> CHR ''/'') (rev s))"

definition code :: "char \<Rightarrow> nat" where
  "code c = of_char c"

definition isDigit :: "char \<Rightarrow> bool" where
  "isDigit c = (48 \<le> code c \<and> code c \<le> 57)"

definition isWhiteSpace :: "char \<Rightarrow> bool" where
  \<comment> \<open>The white space and line terminators that \<open>parseInt\<close> skips, below 256.\<close>
  "isWhiteSpace c = (code c \<in> {9, 10, 11, 12, 13, 32, 160})"

definition digitsValue :: "string \<Rightarrow> int" where
  "digitsValue ds = foldl (\<lambda>acc c. acc * 10 + (int (code c) - 48)) 0 ds"

definition parseInt :: "string \<Rightarrow> int option" where
  \<comment> \<open>\<open>parseInt(s, 10)\<close>: leading white space, an optional sign, the longest run of
      decimal digits; \<open>NaN\<close> when that run is empty. Whatever follows the digits is ignored.
      The result here is the exact integer. The code's result is a double: the same number
      up to \<open>2\<^sup>5\<^sup>3\<close>, a rounded one beyond. Whether the result is \<open>NaN\<close> does not depend on
      this.\<close>
  "parseInt s =
     (let t = dropWhile isWhiteSpace s;
          neg = (t \<noteq> [] \<and> hd t = CHR ''-'');
          u = (if t \<noteq> [] \<and> (hd t = CHR ''+'' \<or> hd t = CHR ''-'') then tl t else t);
          ds = takeWhile isDigit u
      in if ds = [] then None else Some ((if neg then - 1 else 1) * digitsValue ds))"

section \<open>The regular expressions that matchGlob builds\<close>

text \<open>
  \<open>matchGlob\<close> hands a pattern string to \<open>new RegExp\<close> and calls \<open>test\<close>. The engine is the
  language's, so it is modelled here for the syntax \<open>matchGlob\<close> emits: the assertions
  \<open>^\<close> and \<open>$\<close>, the dot, \<open>*\<close> after an atom, identity escapes, literal characters, and
  character classes with the class escapes of the non-unicode (Annex B) grammar.
\<close>

datatype class_atom = ClassChar nat | ClassDigit bool | ClassWord bool | ClassSpace bool

datatype class_item = Single class_atom | Range nat nat

datatype re_atom = AnyChar | Literal nat | CharClass bool "class_item list"

datatype re_term = AssertStart | AssertEnd | Once re_atom | Star re_atom

definition isOctalDigit :: "char \<Rightarrow> bool" where
  "isOctalDigit c = (48 \<le> code c \<and> code c \<le> 55)"

definition isHexDigit :: "char \<Rightarrow> bool" where
  "isHexDigit c = (isDigit c \<or> (65 \<le> code c \<and> code c \<le> 70) \<or> (97 \<le> code c \<and> code c \<le> 102))"

definition hexValue :: "char \<Rightarrow> nat" where
  "hexValue c = (if isDigit c then code c - 48 else if code c \<le> 70 then code c - 55 else code c - 87)"

definition isAsciiLetter :: "char \<Rightarrow> bool" where
  "isAsciiLetter c = ((65 \<le> code c \<and> code c \<le> 90) \<or> (97 \<le> code c \<and> code c \<le> 122))"

definition octalEscape :: "char \<Rightarrow> string \<Rightarrow> class_atom \<times> string" where
  \<comment> \<open>A legacy octal escape: up to three octal digits, the value at most 255.\<close>
  "octalEscape d ds =
     (let v = code d - 48 in
      case ds of
        [] \<Rightarrow> (ClassChar v, ds)
      | e # es \<Rightarrow>
          if \<not> isOctalDigit e then (ClassChar v, ds)
          else let w = v * 8 + (code e - 48) in
            (case es of
               [] \<Rightarrow> (ClassChar w, es)
             | f # fs \<Rightarrow>
                 if v \<le> 3 \<and> isOctalDigit f then (ClassChar (w * 8 + (code f - 48)), fs)
                 else (ClassChar w, es)))"

definition classEscape :: "char \<Rightarrow> string \<Rightarrow> class_atom \<times> string" where
  \<comment> \<open>The escape that begins with the character \<open>d\<close> after a backslash inside a class;
      \<open>ds\<close> is what follows \<open>d\<close>. The result is the atom and the input left.\<close>
  "classEscape d ds =
     (if d = CHR ''b'' then (ClassChar 8, ds)
      else if d = CHR ''d'' then (ClassDigit False, ds)
      else if d = CHR ''D'' then (ClassDigit True, ds)
      else if d = CHR ''w'' then (ClassWord False, ds)
      else if d = CHR ''W'' then (ClassWord True, ds)
      else if d = CHR ''s'' then (ClassSpace False, ds)
      else if d = CHR ''S'' then (ClassSpace True, ds)
      else if d = CHR ''f'' then (ClassChar 12, ds)
      else if d = CHR ''n'' then (ClassChar 10, ds)
      else if d = CHR ''r'' then (ClassChar 13, ds)
      else if d = CHR ''t'' then (ClassChar 9, ds)
      else if d = CHR ''v'' then (ClassChar 11, ds)
      else if d = CHR ''c'' then
        (case ds of
           [] \<Rightarrow> (ClassChar 92, d # ds)
         | e # es \<Rightarrow>
             if isAsciiLetter e \<or> isDigit e \<or> e = CHR ''_'' then (ClassChar (code e mod 32), es)
             else (ClassChar 92, d # ds))
      else if isOctalDigit d then octalEscape d ds
      else if d = CHR ''x'' then
        (case ds of
           h1 # h2 # r \<Rightarrow>
             if isHexDigit h1 \<and> isHexDigit h2 then (ClassChar (16 * hexValue h1 + hexValue h2), r)
             else (ClassChar (code d), ds)
         | _ \<Rightarrow> (ClassChar (code d), ds))
      else if d = CHR ''u'' then
        (case ds of
           h1 # h2 # h3 # h4 # r \<Rightarrow>
             if isHexDigit h1 \<and> isHexDigit h2 \<and> isHexDigit h3 \<and> isHexDigit h4
             then (ClassChar (4096 * hexValue h1 + 256 * hexValue h2 + 16 * hexValue h3 + hexValue h4), r)
             else (ClassChar (code d), ds)
         | _ \<Rightarrow> (ClassChar (code d), ds))
      else (ClassChar (code d), ds))"

definition classAtom :: "char \<Rightarrow> string \<Rightarrow> class_atom \<times> string" where
  \<comment> \<open>One class atom from the input \<open>c # cs\<close>.\<close>
  "classAtom c cs =
     (if c \<noteq> CHR 0x5C then (ClassChar (code c), cs)
      else case cs of [] \<Rightarrow> (ClassChar 92, []) | d # ds \<Rightarrow> classEscape d ds)"

fun classBody :: "string \<Rightarrow> (string \<times> string) option" where
  \<comment> \<open>The text of a class up to its closing bracket, and what follows the bracket. A
      backslash takes the next character with it; \<open>None\<close> when the class is never closed.\<close>
  "classBody [] = None"
| "classBody [c] = (if c = CHR '']'' then Some ([], []) else None)"
| "classBody (c # d # ds) =
     (if c = CHR '']'' then Some ([], d # ds)
      else if c = CHR 0x5C then map_option (\<lambda>(b, r). (c # d # b, r)) (classBody ds)
      else map_option (\<lambda>(b, r). (c # b, r)) (classBody (d # ds)))"

definition consItems :: "class_item list \<Rightarrow> thrown + class_item list \<Rightarrow> thrown + class_item list" where
  "consItems xs r = (case r of Inl e \<Rightarrow> Inl e | Inr ys \<Rightarrow> Inr (xs @ ys))"

lemma classEscape_length: "length (snd (classEscape d ds)) \<le> Suc (length ds)"
  by (auto simp: classEscape_def octalEscape_def Let_def split: list.splits)

lemma classAtom_length: "length (snd (classAtom c cs)) \<le> length cs"
  using classEscape_length by (auto simp: classAtom_def split: list.splits)

lemma classAtom_rest: "(a, r) = classAtom c cs \<Longrightarrow> length r \<le> length cs"
  using classAtom_length [of c cs] by (metis snd_conv)

function classRanges :: "string \<Rightarrow> thrown + class_item list" where
  "classRanges [] = Inr []"
| "classRanges (c # cs) =
     (case classAtom c cs of
        (a, r) \<Rightarrow>
          (case r of
             dash # b # r' \<Rightarrow>
               if dash = CHR ''-'' then
                 (case classAtom b r' of
                    (a2, r2) \<Rightarrow>
                      (case (a, a2) of
                         (ClassChar lo, ClassChar hi) \<Rightarrow>
                           if lo \<le> hi then consItems [Range lo hi] (classRanges r2)
                           else Inl RegExpSyntaxError
                       | _ \<Rightarrow> consItems [Single a, Single (ClassChar 45), Single a2] (classRanges r2)))
               else consItems [Single a] (classRanges r)
           | _ \<Rightarrow> consItems [Single a] (classRanges r)))"
  by pat_completeness auto
termination
  by (relation "measure length") (auto dest!: classAtom_rest)

text \<open>
  Class members are code units as numbers, so that an escape such as \<open>\u0178\<close> has its
  value. Matching without regard to case compares canonical forms (the upper-case
  mapping of a single code unit). \<open>canonicalize\<close> gives them for the code units below
  256 and for the three above that share a canonical form with one below
  (\<open>U+039C\<close>, \<open>U+03BC\<close>, \<open>U+0178\<close>); the subject string holds no other code unit.
\<close>

definition inDigits :: "nat \<Rightarrow> bool" where
  "inDigits n = (48 \<le> n \<and> n \<le> 57)"

definition inWord :: "nat \<Rightarrow> bool" where
  "inWord n = (inDigits n \<or> (65 \<le> n \<and> n \<le> 90) \<or> (97 \<le> n \<and> n \<le> 122) \<or> n = 95)"

definition inSpace :: "nat \<Rightarrow> bool" where
  "inSpace n = (n \<in> {9, 10, 11, 12, 13, 32, 160, 5760, 8232, 8233, 8239, 8287, 12288, 65279}
                \<or> (8192 \<le> n \<and> n \<le> 8202))"

fun atomHas :: "class_atom \<Rightarrow> nat \<Rightarrow> bool" where
  "atomHas (ClassChar m) n = (m = n)"
| "atomHas (ClassDigit neg) n = (inDigits n \<noteq> neg)"
| "atomHas (ClassWord neg) n = (inWord n \<noteq> neg)"
| "atomHas (ClassSpace neg) n = (inSpace n \<noteq> neg)"

fun itemHas :: "class_item \<Rightarrow> nat \<Rightarrow> bool" where
  "itemHas (Single a) n = atomHas a n"
| "itemHas (Range lo hi) n = (lo \<le> n \<and> n \<le> hi)"

definition canonicalize :: "nat \<Rightarrow> nat" where
  "canonicalize n =
     (if (97 \<le> n \<and> n \<le> 122) \<or> (224 \<le> n \<and> n \<le> 254 \<and> n \<noteq> 247) then n - 32
      else if n = 181 \<or> n = 956 then 924
      else if n = 255 then 376
      else n)"

definition caseVariants :: "nat \<Rightarrow> nat list" where
  "caseVariants n = filter (\<lambda>a. canonicalize a = canonicalize n) [n, n + 32, n - 32, 181, 924, 956, 255, 376]"

fun atomMatches :: "bool \<Rightarrow> re_atom \<Rightarrow> char \<Rightarrow> bool" where
  "atomMatches ic AnyChar c = (code c \<notin> {10, 13, 8232, 8233})"
| "atomMatches ic (Literal n) c =
     (if ic then canonicalize n = canonicalize (code c) else n = code c)"
| "atomMatches ic (CharClass neg items) c =
     ((if ic then list_ex (\<lambda>a. list_ex (\<lambda>i. itemHas i a) items) (caseVariants (code c))
       else list_ex (\<lambda>i. itemHas i (code c)) items) \<noteq> neg)"

fun matchTerms :: "bool \<Rightarrow> re_term list \<Rightarrow> bool \<Rightarrow> string \<Rightarrow> bool" where
  "matchTerms ic [] atStart s = True"
| "matchTerms ic (AssertStart # ts) atStart s = (atStart \<and> matchTerms ic ts atStart s)"
| "matchTerms ic (AssertEnd # ts) atStart s = (s = [] \<and> matchTerms ic ts atStart s)"
| "matchTerms ic (Once a # ts) atStart s =
     (case s of [] \<Rightarrow> False | c # cs \<Rightarrow> atomMatches ic a c \<and> matchTerms ic ts False cs)"
| "matchTerms ic (Star a # ts) atStart s =
     (matchTerms ic ts atStart s \<or>
      (case s of [] \<Rightarrow> False | c # cs \<Rightarrow> atomMatches ic a c \<and> matchTerms ic (Star a # ts) False cs))"


definition parseClass :: "string \<Rightarrow> thrown + (re_atom \<times> string)" where
  \<comment> \<open>A character class; the input is what follows the opening bracket.\<close>
  "parseClass cs =
     (let neg = (cs \<noteq> [] \<and> hd cs = CHR ''^'');
          cs' = (if neg then tl cs else cs)
      in case classBody cs' of
           None \<Rightarrow> Inl RegExpSyntaxError
         | Some (body, r) \<Rightarrow>
             (case classRanges body of
                Inl e \<Rightarrow> Inl e
              | Inr items \<Rightarrow> Inr (CharClass neg items, r)))"

definition parseAtom :: "char \<Rightarrow> string \<Rightarrow> thrown + (re_atom \<times> string)" where
  \<comment> \<open>One atom from the input \<open>c # cs\<close>, where \<open>c\<close> is not an assertion, a quantifier, a
      parenthesis, a brace or a bar.\<close>
  "parseAtom c cs =
     (if c = CHR ''.'' then Inr (AnyChar, cs)
      else if c = CHR 0x5C then
        (case cs of
           [] \<Rightarrow> Inl RegExpSyntaxError
         | d # ds \<Rightarrow>
             if d \<in> set ''^$.*+?()[]{}|/'' \<or> d = CHR 0x5C then Inr (Literal (code d), ds)
             else Inl RegExpUnmodelled)
      else if c = CHR ''['' then parseClass cs
      else Inr (Literal (code c), cs))"

definition consTerm :: "re_term \<Rightarrow> thrown + re_term list \<Rightarrow> thrown + re_term list" where
  "consTerm t r = (case r of Inl e \<Rightarrow> Inl e | Inr ts \<Rightarrow> Inr (t # ts))"

lemma classBody_rest: "classBody s = Some (b, r) \<Longrightarrow> length r < length s"
  by (induction s arbitrary: b r rule: classBody.induct) (auto split: if_splits)

lemma parseAtom_rest: "parseAtom c cs = Inr (a, r) \<Longrightarrow> length r \<le> length cs"
  by (auto simp: parseAtom_def parseClass_def Let_def
      split: if_splits list.splits option.splits sum.splits dest!: classBody_rest)

function parseTerms :: "string \<Rightarrow> thrown + re_term list" where
  "parseTerms [] = Inr []"
| "parseTerms (c # cs) =
     (if c = CHR ''^'' then consTerm AssertStart (parseTerms cs)
      else if c = CHR ''$'' then consTerm AssertEnd (parseTerms cs)
      else if c \<in> set ''*+?'' then Inl RegExpSyntaxError
      else if c \<in> set ''(){}|'' then Inl RegExpUnmodelled
      else
        (case parseAtom c cs of
           Inl e \<Rightarrow> Inl e
         | Inr (a, r) \<Rightarrow>
             (case r of
                [] \<Rightarrow> Inr [Once a]
              | q # r' \<Rightarrow>
                  if q = CHR ''*'' then
                    (if r' \<noteq> [] \<and> hd r' = CHR ''?'' then Inl RegExpUnmodelled
                     else consTerm (Star a) (parseTerms r'))
                  else if q \<in> set ''+?{'' then Inl RegExpUnmodelled
                  else consTerm (Once a) (parseTerms r))))"
  by pat_completeness auto
termination
  by (relation "measure length") (auto dest!: parseAtom_rest)

definition isRegexSpecial :: "char \<Rightarrow> bool" where
  \<comment> \<open>The test \<open>/[.+^${}()|\\]/.test(c)\<close>.\<close>
  "isRegexSpecial c = (c \<in> set ''.+^${}()|'' \<or> c = CHR 0x5C)"

function globToRegex :: "string \<Rightarrow> string" where
  "globToRegex [] = []"
| "globToRegex (c # cs) =
     (if c = CHR ''*'' then ''.*'' @ globToRegex cs
      else if c = CHR ''?'' then ''.'' @ globToRegex cs
      else if c = CHR ''['' then
        (case dropWhile (\<lambda>d. d \<noteq> CHR '']'') cs of
           [] \<Rightarrow> c # cs
         | d # ds \<Rightarrow> (c # takeWhile (\<lambda>d. d \<noteq> CHR '']'') cs) @ d # globToRegex ds)
      else if isRegexSpecial c then CHR 0x5C # c # globToRegex cs
      else c # globToRegex cs)"
  by pat_completeness auto
termination
proof (relation "measure length", goal_cases)
  case (4 c cs d ds)
  have "length (dropWhile (\<lambda>d. d \<noteq> CHR '']'') cs) \<le> length cs"
    by (rule length_dropWhile_le)
  with 4 show ?case by simp
qed simp_all

definition regExpTest :: "bool \<Rightarrow> string \<Rightarrow> string \<Rightarrow> thrown + bool" where
  \<comment> \<open>\<open>new RegExp(src, ic ? "i" : "").test(s)\<close>: the search tries every start index.\<close>
  "regExpTest ic src s =
     (case parseTerms src of
        Inl e \<Rightarrow> Inl e
      | Inr ts \<Rightarrow> Inr (list_ex (\<lambda>i. matchTerms ic ts (i = 0) (drop i s)) [0..<Suc (length s)]))"

definition matchGlob :: "string \<Rightarrow> string \<Rightarrow> bool \<Rightarrow> thrown + bool" where
  "matchGlob name pattern ignoreCase =
     regExpTest ignoreCase (''^'' @ globToRegex pattern @ ''$'') name"


section \<open>Expressions, tokens and actions\<close>

datatype comparison = Exact | More | Less

datatype size_unit = UnitC | UnitK | UnitM | UnitG | UnitB

datatype file_type = TypeF | TypeD

datatype expression =
    EName string bool
  | EPath string bool
  | EType file_type
  | EEmpty
  | EMtime int comparison
  | ENewer string
  | ESize int size_unit comparison
  | ENot expression
  | EAnd expression expression
  | EOr expression expression

datatype find_action = Exec "string list" bool | Print | Print0 | Delete

datatype operator = OpAnd | OpOr

datatype token = TExpr expression | TOp operator | TNot

record parse_result =
  expr :: "expression option"
  pathIndex :: nat
  error :: "string option"
  actions :: "find_action list"

datatype scan = ScanError nat string | ScanDone nat "token list" "find_action list"

definition splitSign :: "string \<Rightarrow> comparison \<times> string" where
  \<comment> \<open>A leading \<open>+\<close> or \<open>-\<close> of the value of \<open>-mtime\<close> and \<open>-size\<close>.\<close>
  "splitSign a =
     (if startsWith a ''+'' then (More, drop 1 a)
      else if startsWith a ''-'' then (Less, drop 1 a)
      else (Exact, a))"

definition mtimeTokens :: "string \<Rightarrow> token list" where
  "mtimeTokens mtimeArg =
     (case splitSign mtimeArg of
        (comparison, daysStr) \<Rightarrow>
          (case parseInt daysStr of
             None \<Rightarrow> []
           | Some days \<Rightarrow> [TExpr (EMtime days comparison)]))"

definition sizeMatch :: "string \<Rightarrow> (string \<times> string) option" where
  \<comment> \<open>\<open>sizeStr.match(/^(\d+)([ckMGb])?$/)\<close>: the two groups, the second empty when absent.\<close>
  "sizeMatch s =
     (let ds = takeWhile isDigit s; r = dropWhile isDigit s
      in if ds \<noteq> [] \<and> (r = [] \<or> (length r = 1 \<and> hd r \<in> set ''ckMGb'')) then Some (ds, r)
         else None)"

definition unitOf :: "string \<Rightarrow> size_unit" where
  \<comment> \<open>\<open>sizeMatch[2] || "b"\<close>.\<close>
  "unitOf u =
     (if u = ''c'' then UnitC else if u = ''k'' then UnitK else if u = ''M'' then UnitM
      else if u = ''G'' then UnitG else UnitB)"

definition sizeTokens :: "string \<Rightarrow> token list" where
  "sizeTokens sizeArg =
     (case splitSign sizeArg of
        (comparison, sizeStr) \<Rightarrow>
          (case sizeMatch sizeStr of
             None \<Rightarrow> []
           | Some (g1, g2) \<Rightarrow>
               (case parseInt g1 of
                  None \<Rightarrow> []
                | Some v \<Rightarrow> [TExpr (ESize v (unitOf g2) comparison)])))"

definition isTerminator :: "string \<Rightarrow> bool" where
  "isTerminator a = (a = '';'' \<or> a = ''+'')"

function scanArgs :: "string list \<Rightarrow> nat \<Rightarrow> token list \<Rightarrow> find_action list \<Rightarrow> scan" where
  "scanArgs [] i toks acts = ScanDone i toks acts"
| "scanArgs (arg # rest) i toks acts =
     (if arg = ''-name'' \<and> rest \<noteq> [] then
        scanArgs (tl rest) (i + 2) (toks @ [TExpr (EName (hd rest) False)]) acts
      else if arg = ''-iname'' \<and> rest \<noteq> [] then
        scanArgs (tl rest) (i + 2) (toks @ [TExpr (EName (hd rest) True)]) acts
      else if arg = ''-path'' \<and> rest \<noteq> [] then
        scanArgs (tl rest) (i + 2) (toks @ [TExpr (EPath (hd rest) False)]) acts
      else if arg = ''-ipath'' \<and> rest \<noteq> [] then
        scanArgs (tl rest) (i + 2) (toks @ [TExpr (EPath (hd rest) True)]) acts
      else if arg = ''-type'' \<and> rest \<noteq> [] then
        (if hd rest = ''f'' then scanArgs (tl rest) (i + 2) (toks @ [TExpr (EType TypeF)]) acts
         else if hd rest = ''d'' then scanArgs (tl rest) (i + 2) (toks @ [TExpr (EType TypeD)]) acts
         else ScanError (i + 1) (''find: Unknown argument to -type: '' @ hd rest @ [CHR 0x0A]))
      else if arg = ''-empty'' then scanArgs rest (i + 1) (toks @ [TExpr EEmpty]) acts
      else if arg = ''-mtime'' \<and> rest \<noteq> [] then
        scanArgs (tl rest) (i + 2) (toks @ mtimeTokens (hd rest)) acts
      else if arg = ''-newer'' \<and> rest \<noteq> [] then
        scanArgs (tl rest) (i + 2) (toks @ [TExpr (ENewer (hd rest))]) acts
      else if arg = ''-size'' \<and> rest \<noteq> [] then
        scanArgs (tl rest) (i + 2) (toks @ sizeTokens (hd rest)) acts
      else if arg = ''-not'' \<or> arg = ''!'' then scanArgs rest (i + 1) (toks @ [TNot]) acts
      else if arg = ''-o'' \<or> arg = ''-or'' then scanArgs rest (i + 1) (toks @ [TOp OpOr]) acts
      else if arg = ''-a'' \<or> arg = ''-and'' then scanArgs rest (i + 1) (toks @ [TOp OpAnd]) acts
      else if arg = ''-maxdepth'' \<or> arg = ''-mindepth'' then scanArgs (drop 1 rest) (i + 2) toks acts
      else if arg = ''-exec'' then
        (let commandParts = takeWhile (\<lambda>a. \<not> isTerminator a) rest;
             after = dropWhile (\<lambda>a. \<not> isTerminator a) rest;
             j = i + 1 + length commandParts
         in if after = [] then
              ScanError j (''find: missing argument to `-exec'' @ [CHR 0x27, CHR 0x0A])
            else scanArgs (tl after) (j + 1) toks (acts @ [Exec commandParts (hd after = ''+'')]))
      else if arg = ''-print'' then scanArgs rest (i + 1) toks (acts @ [Print])
      else if arg = ''-print0'' then scanArgs rest (i + 1) toks (acts @ [Print0])
      else if arg = ''-delete'' then scanArgs rest (i + 1) toks (acts @ [Delete])
      else if startsWith arg ''-'' then
        ScanError i (''find: unknown predicate '' @ [CHR 0x27] @ arg @ [CHR 0x27, CHR 0x0A])
      else if toks = [] then scanArgs rest (i + 1) toks acts
      else ScanDone i toks acts)"
  by pat_completeness auto
termination
proof (relation "measure (\<lambda>(rest, i, toks, acts). length rest)", goal_cases)
  case (16 arg rest i toks acts x xa xb)
  have "length (dropWhile (\<lambda>a. \<not> isTerminator a) rest) \<le> length rest"
    by (rule length_dropWhile_le)
  with 16 show ?case by (cases xa) auto
qed auto

fun processNot :: "token list \<Rightarrow> token list" where
  "processNot [] = []"
| "processNot (TNot # TExpr e # ts) = TExpr (ENot e) # processNot ts"
| "processNot (TNot # ts) = processNot ts"
| "processNot (t # ts) = t # processNot ts"

fun groupByOr :: "token list \<Rightarrow> expression list list \<Rightarrow> expression list list" where
  "groupByOr [] gs = gs"
| "groupByOr (TOp OpOr # ts) gs = groupByOr ts (gs @ [[]])"
| "groupByOr (TExpr e # ts) gs = groupByOr ts (butlast gs @ [last gs @ [e]])"
| "groupByOr (t # ts) gs = groupByOr ts gs"

definition andResults :: "expression list list \<Rightarrow> expression list" where
  "andResults gs = map (\<lambda>g. foldl EAnd (hd g) (tl g)) (filter (\<lambda>g. g \<noteq> []) gs)"

definition buildTree :: "token list \<Rightarrow> expression option" where
  \<comment> \<open>The tree of a non-empty token list: negations, then conjunction groups, then the
      disjunction of the groups.\<close>
  "buildTree toks =
     (let ands = andResults (groupByOr (processNot toks) [[]])
      in if ands = [] then None else Some (foldl EOr (hd ands) (tl ands)))"

definition parseExpressions :: "string list \<Rightarrow> nat \<Rightarrow> parse_result" where
  "parseExpressions args startIndex =
     (case scanArgs (drop startIndex args) startIndex [] [] of
        ScanError i e \<Rightarrow> \<lparr>expr = None, pathIndex = i, error = Some e, actions = []\<rparr>
      | ScanDone i toks acts \<Rightarrow>
          if toks = [] then \<lparr>expr = None, pathIndex = i, error = None, actions = acts\<rparr>
          else \<lparr>expr = buildTree toks, pathIndex = i, error = None, actions = acts\<rparr>)"


section \<open>Evaluation\<close>

record eval_context =
  name :: string
  relativePath :: string
  isFile :: bool
  isDirectory :: bool
  isEmpty :: bool
  mtime :: int
  size' :: int
  newerRefTimes :: "string \<rightharpoonup> int"

definition targetBytes :: "int \<Rightarrow> size_unit \<Rightarrow> int" where
  "targetBytes v u =
     (case u of
        UnitC \<Rightarrow> v
      | UnitK \<Rightarrow> v * 1024
      | UnitM \<Rightarrow> v * 1024 * 1024
      | UnitG \<Rightarrow> v * 1024 * 1024 * 1024
      | UnitB \<Rightarrow> v * 512)"

fun evaluateExpression :: "int \<Rightarrow> expression \<Rightarrow> eval_context \<Rightarrow> thrown + bool" where
  "evaluateExpression now (EName pattern ignoreCase) ctx = matchGlob (name ctx) pattern ignoreCase"
| "evaluateExpression now (EPath pattern ignoreCase) ctx = matchGlob (relativePath ctx) pattern ignoreCase"
| "evaluateExpression now (EType TypeF) ctx = Inr (isFile ctx)"
| "evaluateExpression now (EType TypeD) ctx = Inr (isDirectory ctx)"
| "evaluateExpression now EEmpty ctx = Inr (isEmpty ctx)"
| "evaluateExpression now (EMtime days comparison) ctx =
     (let fileAgeDays = (of_int (now - mtime ctx) :: rat) / (1000 * 60 * 60 * 24)
      in Inr (case comparison of
                More \<Rightarrow> fileAgeDays > of_int days
              | Less \<Rightarrow> fileAgeDays < of_int days
              | Exact \<Rightarrow> \<lfloor>fileAgeDays\<rfloor> = days))"
| "evaluateExpression now (ENewer refPath) ctx =
     (case newerRefTimes ctx refPath of
        None \<Rightarrow> Inr False
      | Some refMtime \<Rightarrow> Inr (mtime ctx > refMtime))"
| "evaluateExpression now (ESize v u comparison) ctx =
     Inr (case comparison of
            More \<Rightarrow> size' ctx > targetBytes v u
          | Less \<Rightarrow> size' ctx < targetBytes v u
          | Exact \<Rightarrow>
              if u = UnitB then \<lceil>(of_int (size' ctx) :: rat) / 512\<rceil> = v
              else size' ctx = targetBytes v u)"
| "evaluateExpression now (ENot e) ctx =
     (case evaluateExpression now e ctx of Inl x \<Rightarrow> Inl x | Inr b \<Rightarrow> Inr (\<not> b))"
| "evaluateExpression now (EAnd l r) ctx =
     (case evaluateExpression now l ctx of
        Inl x \<Rightarrow> Inl x
      | Inr b \<Rightarrow> if b then evaluateExpression now r ctx else Inr False)"
| "evaluateExpression now (EOr l r) ctx =
     (case evaluateExpression now l ctx of
        Inl x \<Rightarrow> Inl x
      | Inr b \<Rightarrow> if b then Inr True else evaluateExpression now r ctx)"

section \<open>The host: file system, clock, command execution\<close>

text \<open>
  The command receives its file system, its working directory and its command runner in
  \<open>ctx\<close>. A call of \<open>stat\<close> that rejects or yields nothing is \<open>None\<close>; so is a call of \<open>readdir\<close>
  that rejects, and the command does not catch that one. \<open>rm\<close> returns the message of its
  failure, if any, and the state it leaves.

  The clock \<open>now\<close> is one value for a run. The code reads \<open>Date.now()\<close> anew at each use:
  for a reference file or a node whose stat result has no \<open>mtime\<close>, and at each evaluation
  of \<open>-mtime\<close>. The model so takes a run to be instantaneous; two readings that the code
  takes at different moments are equal here.
\<close>

record stat_result =
  stat_isFile :: bool
  stat_isDirectory :: bool
  stat_size :: "int option"
  stat_mtime :: "int option"

record exec_result =
  stdout :: string
  stderr :: string
  exitCode :: int

record rm_options =
  recursive :: bool

record 's host =
  hasHelpFlag :: "string list \<Rightarrow> bool"
  showHelp :: exec_result
  cwd :: string
  now :: int
  resolvePath :: "string \<Rightarrow> string \<Rightarrow> string"
  stat :: "'s \<Rightarrow> string \<Rightarrow> stat_result option"
  readdir :: "'s \<Rightarrow> string \<Rightarrow> string list option"
  rm :: "'s \<Rightarrow> string \<Rightarrow> rm_options \<Rightarrow> string option \<times> 's"
  exec :: "(string \<Rightarrow> 's \<Rightarrow> exec_result \<times> 's) option"

datatype event =
  EvStat string | EvReaddir string | EvMatch nat string | EvRm string rm_options | EvExec string

record find_env =
  searchPath :: string
  basePath :: string
  maxDepth :: "int option option"
  minDepth :: "int option option"
  env_expr :: "expression option"
  refTimes :: "string \<rightharpoonup> int"

record walk =
  results :: "string list"
  trace :: "event list"

definition logEvent :: "event \<Rightarrow> walk \<Rightarrow> walk" where
  "logEvent ev w = w\<lparr>trace := trace w @ [ev]\<rparr>"

definition beyondMaxDepth :: "int option option \<Rightarrow> nat \<Rightarrow> bool" where
  \<comment> \<open>\<open>maxDepth !== null && depth > maxDepth\<close>; a comparison with \<open>NaN\<close> is false.\<close>
  "beyondMaxDepth mx depth =
     (case mx of None \<Rightarrow> False | Some None \<Rightarrow> False | Some (Some m) \<Rightarrow> int depth > m)"

definition atOrBeyondMinDepth :: "int option option \<Rightarrow> nat \<Rightarrow> bool" where
  \<comment> \<open>\<open>minDepth === null || depth >= minDepth\<close>.\<close>
  "atOrBeyondMinDepth mn depth =
     (case mn of None \<Rightarrow> True | Some None \<Rightarrow> False | Some (Some m) \<Rightarrow> int depth \<ge> m)"

definition nodeName :: "find_env \<Rightarrow> string \<Rightarrow> string" where
  "nodeName env currentPath =
     (if currentPath = basePath env then orElse (lastSegment (searchPath env)) (searchPath env)
      else orElse (lastSegment currentPath) [])"

definition nodeRelativePath :: "find_env \<Rightarrow> string \<Rightarrow> string" where
  "nodeRelativePath env currentPath =
     (if currentPath = basePath env then searchPath env
      else if searchPath env = ''.'' then ''./'' @ drop (length (basePath env) + 1) currentPath
      else searchPath env @ drop (length (basePath env)) currentPath)"

definition childPath :: "string \<Rightarrow> string \<Rightarrow> string" where
  "childPath currentPath entry =
     (if currentPath = ''/'' then ''/'' @ entry else currentPath @ ''/'' @ entry)"

definition nodeContext :: "'s host \<Rightarrow> find_env \<Rightarrow> string \<Rightarrow> stat_result \<Rightarrow> bool \<Rightarrow> eval_context" where
  "nodeContext h env currentPath st emp =
     \<lparr>name = nodeName env currentPath,
      relativePath = nodeRelativePath env currentPath,
      isFile = stat_isFile st,
      isDirectory = stat_isDirectory st,
      isEmpty = emp,
      mtime = (case stat_mtime st of Some t \<Rightarrow> t | None \<Rightarrow> now h),
      size' = (case stat_size st of Some n \<Rightarrow> n | None \<Rightarrow> 0),
      newerRefTimes = refTimes env\<rparr>"

definition nodeMatches :: "'s host \<Rightarrow> find_env \<Rightarrow> string \<Rightarrow> nat \<Rightarrow> stat_result \<Rightarrow> bool \<Rightarrow> thrown + bool" where
  \<comment> \<open>Whether the node is reported: the depth gate first, then the expression if there is one.\<close>
  "nodeMatches h env currentPath depth st emp =
     (if atOrBeyondMinDepth (minDepth env) depth then
        (case env_expr env of
           None \<Rightarrow> Inr True
         | Some e \<Rightarrow> evaluateExpression (now h) e (nodeContext h env currentPath st emp))
      else Inr False)"

definition pushMatch :: "find_env \<Rightarrow> string \<Rightarrow> nat \<Rightarrow> walk \<Rightarrow> walk" where
  "pushMatch env currentPath depth w =
     w\<lparr>results := results w @ [nodeRelativePath env currentPath],
       trace := trace w @ [EvMatch depth (nodeRelativePath env currentPath)]\<rparr>"

fun findRecursive :: "'s host \<Rightarrow> 's \<Rightarrow> find_env \<Rightarrow> nat \<Rightarrow> string \<Rightarrow> nat \<Rightarrow> walk \<Rightarrow> (thrown + walk) option"
  and findEntries :: "'s host \<Rightarrow> 's \<Rightarrow> find_env \<Rightarrow> nat \<Rightarrow> string \<Rightarrow> string list \<Rightarrow> nat \<Rightarrow> walk \<Rightarrow> (thrown + walk) option"
  where
  "findRecursive h s env 0 currentPath depth w = None"
| "findRecursive h s env (Suc fuel) currentPath depth w =
     (if beyondMaxDepth (maxDepth env) depth then Some (Inr w)
      else
        (case stat h s currentPath of
           None \<Rightarrow> Some (Inr (logEvent (EvStat currentPath) w))
         | Some st \<Rightarrow>
             (let w1 = logEvent (EvStat currentPath) w;
                  listed = (\<not> stat_isFile st \<and> stat_isDirectory st);
                  w2 = (if listed then logEvent (EvReaddir currentPath) w1 else w1)
              in if listed \<and> readdir h s currentPath = None then Some (Inl ReaddirFailed)
                 else
                   (let emp = (if stat_isFile st then stat_size st = Some 0
                                 else if stat_isDirectory st then readdir h s currentPath = Some []
                                 else False)
                    in case nodeMatches h env currentPath depth st emp of
                         Inl x \<Rightarrow> Some (Inl x)
                       | Inr matches \<Rightarrow>
                           (let w3 = (if matches then pushMatch env currentPath depth w2 else w2)
                            in if stat_isDirectory st then
                                 (case readdir h s currentPath of
                                    None \<Rightarrow> Some (Inl ReaddirFailed)
                                  | Some entries \<Rightarrow>
                                      findEntries h s env fuel currentPath entries (depth + 1)
                                        (logEvent (EvReaddir currentPath) w3))
                               else Some (Inr w3))))))"
| "findEntries h s env fuel currentPath [] depth w = Some (Inr w)"
| "findEntries h s env fuel currentPath (entry # entries) depth w =
     (case findRecursive h s env fuel (childPath currentPath entry) depth w of
        None \<Rightarrow> None
      | Some (Inl x) \<Rightarrow> Some (Inl x)
      | Some (Inr w') \<Rightarrow> findEntries h s env fuel currentPath entries depth w')"


section \<open>The find command\<close>

definition PREDICATES_WITH_ARGS :: "string list" where
  "PREDICATES_WITH_ARGS =
     [''-name'', ''-iname'', ''-path'', ''-ipath'', ''-type'', ''-maxdepth'', ''-mindepth'',
      ''-mtime'', ''-newer'', ''-size'']"

function scanPath :: "string list \<Rightarrow> string \<times> int option option \<times> int option option
    \<Rightarrow> string \<times> int option option \<times> int option option" where
  "scanPath [] acc = acc"
| "scanPath (arg # rest) (sp, mx, mn) =
     (if arg = ''-maxdepth'' \<and> rest \<noteq> [] then scanPath (tl rest) (sp, Some (parseInt (hd rest)), mn)
      else if arg = ''-mindepth'' \<and> rest \<noteq> [] then scanPath (tl rest) (sp, mx, Some (parseInt (hd rest)))
      else if arg = ''-exec'' then scanPath (drop 1 (dropWhile (\<lambda>a. \<not> isTerminator a) rest)) (sp, mx, mn)
      else if \<not> startsWith arg ''-'' \<and> arg \<noteq> '';'' \<and> arg \<noteq> ''+'' then scanPath rest (arg, mx, mn)
      else if arg \<in> set PREDICATES_WITH_ARGS then scanPath (drop 1 rest) (sp, mx, mn)
      else scanPath rest (sp, mx, mn))"
  by pat_completeness auto
termination
proof (relation "measure (\<lambda>(rest, acc). length rest)", goal_cases)
  case (4 arg rest sp mx mn)
  have "length (dropWhile (\<lambda>a. \<not> isTerminator a) rest) \<le> length rest"
    by (rule length_dropWhile_le)
  then show ?case by simp
qed auto

fun resolveNewerRefs :: "'s host \<Rightarrow> 's \<Rightarrow> expression \<Rightarrow> (string \<rightharpoonup> int) \<times> event list
    \<Rightarrow> (string \<rightharpoonup> int) \<times> event list" where
  "resolveNewerRefs h s (ENewer refPath) (m, evs) =
     (let refFullPath = resolvePath h (cwd h) refPath
      in case stat h s refFullPath of
           None \<Rightarrow> (m, evs @ [EvStat refFullPath])
         | Some refStat \<Rightarrow>
             (m(refPath \<mapsto> (case stat_mtime refStat of Some t \<Rightarrow> t | None \<Rightarrow> now h)),
              evs @ [EvStat refFullPath]))"
| "resolveNewerRefs h s (ENot e) acc = resolveNewerRefs h s e acc"
| "resolveNewerRefs h s (EAnd l r) acc = resolveNewerRefs h s r (resolveNewerRefs h s l acc)"
| "resolveNewerRefs h s (EOr l r) acc = resolveNewerRefs h s r (resolveNewerRefs h s l acc)"
| "resolveNewerRefs h s e acc = acc"

record 's outcome =
  out :: exec_result
  fs :: 's
  events :: "event list"

fun join :: "string \<Rightarrow> string list \<Rightarrow> string" where
  "join sep [] = []"
| "join sep [x] = x"
| "join sep (x # y # ys) = x @ sep @ join sep (y # ys)"

definition printed :: "string \<Rightarrow> string list \<Rightarrow> string" where
  \<comment> \<open>The matches joined by the separator, and the separator once more when there is a match.\<close>
  "printed sep rs = (if rs \<noteq> [] then join sep rs @ sep else [])"

definition addStdout :: "string \<Rightarrow> 's outcome \<Rightarrow> 's outcome" where
  "addStdout t oc = oc\<lparr>out := (out oc)\<lparr>stdout := stdout (out oc) @ t\<rparr>\<rparr>"

definition sortedForDelete :: "string list \<Rightarrow> string list" where
  \<comment> \<open>\<open>[...results].sort((a, b) => b.length - a.length)\<close>; the sort is stable.\<close>
  "sortedForDelete rs = sort_key (\<lambda>f. - int (length f)) rs"

definition deleteMessage :: "string \<Rightarrow> string \<Rightarrow> string" where
  "deleteMessage file msg =
     ''find: cannot delete '' @ [CHR 0x27] @ file @ [CHR 0x27] @ '': '' @ msg @ [CHR 0x0A]"

fun deleteFiles :: "'s host \<Rightarrow> string list \<Rightarrow> 's outcome \<Rightarrow> 's outcome" where
  "deleteFiles h [] oc = oc"
| "deleteFiles h (file # files) oc =
     (let fullPath = resolvePath h (cwd h) file
      in case rm h (fs oc) fullPath \<lparr>recursive = False\<rparr> of
           (None, s') \<Rightarrow>
             deleteFiles h files
               (oc\<lparr>fs := s', events := events oc @ [EvRm fullPath \<lparr>recursive = False\<rparr>]\<rparr>)
         | (Some msg, s') \<Rightarrow>
             deleteFiles h files
               (oc\<lparr>out := (out oc)\<lparr>stderr := stderr (out oc) @ deleteMessage file msg, exitCode := 1\<rparr>,
                   fs := s', events := events oc @ [EvRm fullPath \<lparr>recursive = False\<rparr>]\<rparr>))"

definition quoted :: "string list \<Rightarrow> string" where
  \<comment> \<open>\<open>parts.map((p) => `"${p}"`).join(" ")\<close>.\<close>
  "quoted parts = join '' '' (map (\<lambda>p. [CHR 0x22] @ p @ [CHR 0x22]) parts)"

definition runCommand :: "(string \<Rightarrow> 's \<Rightarrow> exec_result \<times> 's) \<Rightarrow> string \<Rightarrow> 's outcome \<Rightarrow> 's outcome" where
  "runCommand run cmd oc =
     (case run cmd (fs oc) of
        (r, s') \<Rightarrow>
          \<lparr>out = \<lparr>stdout = stdout (out oc) @ stdout r,
                  stderr = stderr (out oc) @ stderr r,
                  exitCode = (if exitCode r \<noteq> 0 then exitCode r else exitCode (out oc))\<rparr>,
           fs = s', events = events oc @ [EvExec cmd]\<rparr>)"

fun runActions :: "'s host \<Rightarrow> string list \<Rightarrow> find_action list \<Rightarrow> 's outcome \<Rightarrow> 's outcome" where
  "runActions h rs [] oc = oc"
| "runActions h rs (Print # acts) oc = runActions h rs acts (addStdout (printed [CHR 0x0A] rs) oc)"
| "runActions h rs (Print0 # acts) oc = runActions h rs acts (addStdout (printed [CHR 0x00] rs) oc)"
| "runActions h rs (Delete # acts) oc = runActions h rs acts (deleteFiles h (sortedForDelete rs) oc)"
| "runActions h rs (Exec command batchMode # acts) oc =
     (case exec h of
        None \<Rightarrow>
          oc\<lparr>out := \<lparr>stdout = [], stderr = ''find: -exec not supported in this context'' @ [CHR 0x0A],
                      exitCode = 1\<rparr>\<rparr>
      | Some run \<Rightarrow>
          runActions h rs acts
            (if batchMode then
               runCommand run (quoted (concat (map (\<lambda>part. if part = ''{}'' then rs else [part]) command))) oc
             else
               foldl (\<lambda>o' file. runCommand run (quoted (map (\<lambda>part. if part = ''{}'' then file else part) command)) o')
                 oc rs))"

definition truthy :: "string option \<Rightarrow> bool" where
  \<comment> \<open>\<open>if (error)\<close>: the field is present and not the empty string.\<close>
  "truthy e = (case e of None \<Rightarrow> False | Some t \<Rightarrow> t \<noteq> [])"

definition failure :: "'s \<Rightarrow> event list \<Rightarrow> string \<Rightarrow> 's outcome" where
  "failure s evs msg = \<lparr>out = \<lparr>stdout = [], stderr = msg, exitCode = 1\<rparr>, fs = s, events = evs\<rparr>"

definition execute :: "'s host \<Rightarrow> 's \<Rightarrow> nat \<Rightarrow> string list \<Rightarrow> (thrown + 's outcome) option" where
  "execute h s fuel args =
     (if hasHelpFlag h args then Some (Inr \<lparr>out = showHelp h, fs = s, events = []\<rparr>)
      else
        (case scanPath args (''.'', None, None) of
           (sp, mx, mn) \<Rightarrow>
             (let pr = parseExpressions args 0
              in if truthy (error pr) then Some (Inr (failure s [] (case error pr of Some e \<Rightarrow> e | None \<Rightarrow> [])))
                 else
                   (let base = resolvePath h (cwd h) sp
                    in case stat h s base of
                         None \<Rightarrow>
                           Some (Inr (failure s [EvStat base]
                             (''find: '' @ sp @ '': No such file or directory'' @ [CHR 0x0A])))
                       | Some st0 \<Rightarrow>
                           (case (case expr pr of
                                    None \<Rightarrow> (Map.empty, [EvStat base])
                                  | Some e \<Rightarrow> resolveNewerRefs h s e (Map.empty, [EvStat base])) of
                              (refs, evs) \<Rightarrow>
                                (case findRecursive h s
                                        \<lparr>searchPath = sp, basePath = base, maxDepth = mx, minDepth = mn,
                                         env_expr = expr pr, refTimes = refs\<rparr>
                                        fuel base 0 \<lparr>results = [], trace = evs\<rparr> of
                                   None \<Rightarrow> None
                                 | Some (Inl x) \<Rightarrow> Some (Inl x)
                                 | Some (Inr w) \<Rightarrow>
                                     (let oc = \<lparr>out = \<lparr>stdout = [], stderr = [], exitCode = 0\<rparr>,
                                                 fs = s, events = trace w\<rparr>
                                      in Some (Inr (if actions pr \<noteq> [] then runActions h (results w) (actions pr) oc
                                                    else addStdout (printed [CHR 0x0A] (results w)) oc)))))))))"


section \<open>A host for the scenario of the spec\<close>

text \<open>
  Modelled from the spec: the file system behind \<open>ctx.fs\<close> (path resolution, metadata
  query, directory listing, removal; section 6 of the spec) and the help functions of
  \<open>help.js\<close> are not among the sources, so the command takes them as the \<open>host\<close> record.
  The instance below is the tree of the spec's scenario, rooted at the working directory
  \<open>/work\<close>: \<open>a.txt\<close> (10 bytes), \<open>b.log\<close> (0 bytes) and the directory \<open>d\<close> holding \<open>c.txt\<close>
  (5 bytes). Its state is the list of removed paths. It serves to instantiate the
  theorems; no theorem about the command depends on it.
\<close>

definition fileStat :: "int \<Rightarrow> int \<Rightarrow> stat_result" where
  "fileStat n t = \<lparr>stat_isFile = True, stat_isDirectory = False, stat_size = Some n, stat_mtime = Some t\<rparr>"

definition dirStat :: stat_result where
  "dirStat = \<lparr>stat_isFile = False, stat_isDirectory = True, stat_size = Some 0, stat_mtime = Some 1000\<rparr>"

definition scenarioStat :: "string \<Rightarrow> stat_result option" where
  "scenarioStat p =
     (if p = ''/work'' \<or> p = ''/work/d'' then Some dirStat
      else if p = ''/work/a.txt'' then Some (fileStat 10 2000)
      else if p = ''/work/b.log'' then Some (fileStat 0 1000)
      else if p = ''/work/d/c.txt'' then Some (fileStat 5 3000)
      else None)"

definition scenarioEntries :: "string \<Rightarrow> string list option" where
  "scenarioEntries p =
     (if p = ''/work'' then Some [''a.txt'', ''b.log'', ''d'']
      else if p = ''/work/d'' then Some [''c.txt'']
      else None)"

definition scenarioReaddir :: "string list \<Rightarrow> string \<Rightarrow> string list option" where
  "scenarioReaddir removed p =
     (if p \<in> set removed then None
      else map_option (filter (\<lambda>e. childPath p e \<notin> set removed)) (scenarioEntries p))"

definition scenarioPaths :: "string list" where
  "scenarioPaths = [''/work'', ''/work/a.txt'', ''/work/b.log'', ''/work/d'', ''/work/d/c.txt'']"

definition scenarioRm :: "string list \<Rightarrow> string \<Rightarrow> rm_options \<Rightarrow> string option \<times> string list" where
  \<comment> \<open>A directory that still has entries is removed only when \<open>recursive\<close> is set, with
      all that it holds.\<close>
  "scenarioRm removed p opts =
     (if p \<in> set removed \<or> scenarioStat p = None then (Some ''No such file or directory'', removed)
      else if scenarioReaddir removed p \<in> {None, Some []} then (None, p # removed)
      else if recursive opts then
        (None, p # filter (\<lambda>q. startsWith q (p @ ''/'') \<and> q \<notin> set removed) scenarioPaths @ removed)
      else (Some ''Directory not empty'', removed))"

definition scenarioResolve :: "string \<Rightarrow> string \<Rightarrow> string" where
  "scenarioResolve dir p =
     (if p = ''.'' then dir
      else if startsWith p ''/'' then p
      else if startsWith p ''./'' then dir @ ''/'' @ drop 2 p
      else dir @ ''/'' @ p)"

definition scenarioHost :: "string list host" where
  "scenarioHost =
     \<lparr>hasHelpFlag = (\<lambda>args. ''--help'' \<in> set args),
      showHelp = \<lparr>stdout = ''find [path...] [expression]'', stderr = [], exitCode = 0\<rparr>,
      cwd = ''/work'',
      now = 86400000,
      resolvePath = scenarioResolve,
      stat = (\<lambda>removed p. if p \<in> set removed then None else scenarioStat p),
      readdir = scenarioReaddir,
      rm = scenarioRm,
      exec = None\<rparr>"

definition underWork :: "string \<Rightarrow> string" where
  "underWork p = (if p = ''/'' then ''/work'' else ''/work'' @ p)"

definition rootHost :: "string list host" where
  \<comment> \<open>The same tree standing at the root \<open>/\<close> of the file system, which is the working
      directory.\<close>
  "rootHost =
     scenarioHost
       \<lparr>cwd := ''/'',
        stat := (\<lambda>removed p. if startsWith p ''/'' then scenarioStat (underWork p) else None),
        readdir := (\<lambda>removed p. if startsWith p ''/'' then scenarioEntries (underWork p) else None),
        rm := (\<lambda>removed p opts. (Some ''Read-only file system'', removed))\<rparr>"


section \<open>Notions used to state the properties\<close>





definition namedContext :: "string \<Rightarrow> eval_context" where
  \<comment> \<open>A synthetic node: a regular file of the given name.\<close>
  "namedContext n =
     \<lparr>name = n, relativePath = ''./'' @ n, isFile = True, isDirectory = False, isEmpty = False,
      mtime = 0, size' = 1, newerRefTimes = Map.empty\<rparr>"


text \<open>
  The reference paths of the \<open>newer\<close> predicates of a tree, the time a reference resolves
  to, and the outcome of each removal of a run of removals (the state threaded through).
\<close>

fun newerRefs :: "expression \<Rightarrow> string list" where
  "newerRefs (ENewer p) = [p]"
| "newerRefs (ENot e) = newerRefs e"
| "newerRefs (EAnd l r) = newerRefs l @ newerRefs r"
| "newerRefs (EOr l r) = newerRefs l @ newerRefs r"
| "newerRefs e = []"

definition refTime :: "'s host \<Rightarrow> 's \<Rightarrow> string \<Rightarrow> int option" where
  \<comment> \<open>The modification time of the reference file, when it can be resolved.\<close>
  "refTime h s p =
     map_option (\<lambda>rs. case stat_mtime rs of Some t \<Rightarrow> t | None \<Rightarrow> now h)
       (stat h s (resolvePath h (cwd h) p))"

definition removeOne :: "'s host \<Rightarrow> 's \<Rightarrow> string \<Rightarrow> string option \<times> 's" where
  \<comment> \<open>The non-recursive removal of one match: the failure message if any, and the state left.\<close>
  "removeOne h s f = rm h s (resolvePath h (cwd h) f) \<lparr>recursive = False\<rparr>"

definition removeAll :: "'s host \<Rightarrow> 's \<Rightarrow> string list \<Rightarrow> 's" where
  \<comment> \<open>The state left by removing the files one after the other.\<close>
  "removeAll h s files = foldl (\<lambda>s' f. snd (removeOne h s' f)) s files"

fun rmOutcomes :: "'s host \<Rightarrow> 's \<Rightarrow> string list \<Rightarrow> (string \<times> string option) list" where
  \<comment> \<open>Each file with the outcome of its removal in the state the earlier removals left.\<close>
  "rmOutcomes h s [] = []"
| "rmOutcomes h s (f # files) =
     (f, fst (removeOne h s f)) # rmOutcomes h (snd (removeOne h s f)) files"

definition failureLine :: "string \<times> string option \<Rightarrow> string" where
  \<comment> \<open>The line of standard error for one removal: none when it succeeded.\<close>
  "failureLine a =
     (case a of
        (f, None) \<Rightarrow> []
      | (f, Some msg) \<Rightarrow> ''find: cannot delete '' @ [CHR 0x27] @ f @ [CHR 0x27] @ '': '' @ msg @ [CHR 0x0A])"

text \<open>
  The flags of the tokenizer, its two error messages, and the arguments it takes for
  paths.
\<close>

definition knownFlags :: "string list" where
  \<comment> \<open>The flags the tokenizer recognises.\<close>
  "knownFlags =
     [''-name'', ''-iname'', ''-path'', ''-ipath'', ''-type'', ''-empty'', ''-mtime'', ''-newer'',
      ''-size'', ''-not'', ''-o'', ''-or'', ''-a'', ''-and'', ''-maxdepth'', ''-mindepth'', ''-exec'',
      ''-print'', ''-print0'', ''-delete'']"

definition unknownPredicate :: "string \<Rightarrow> string" where
  "unknownPredicate x = ''find: unknown predicate '' @ [CHR 0x27] @ x @ [CHR 0x27, CHR 0x0A]"

definition missingExecArgument :: string where
  "missingExecArgument = ''find: missing argument to `-exec'' @ [CHR 0x27, CHR 0x0A]"

definition bare :: "string \<Rightarrow> bool" where
  \<comment> \<open>An argument that is neither flag-shaped nor the negation mark.\<close>
  "bare a = (\<not> startsWith a ''-'' \<and> a \<noteq> ''!'')"

text \<open>A traversal environment and an empty walk for the scenario.\<close>

definition scenarioEnv :: "int option option \<Rightarrow> int option option \<Rightarrow> expression option \<Rightarrow> find_env" where
  \<comment> \<open>A traversal of the scenario from its root, the search path being \<open>.\<close>\<close>
  "scenarioEnv mx mn e =
     \<lparr>searchPath = ''.'', basePath = ''/work'', maxDepth = mx, minDepth = mn, env_expr = e,
      refTimes = Map.empty\<rparr>"

definition emptyWalk :: walk where
  "emptyWalk = \<lparr>results = [], trace = []\<rparr>"

text \<open>
  The traversal, node by node: what one call does before it loops over the entries, the
  events it may log, and the relations between the walk before and after a call.
\<close>

datatype visit = Stop walk | Throw thrown | Descend "string list" walk

definition visitNode :: "'s host \<Rightarrow> 's \<Rightarrow> find_env \<Rightarrow> string \<Rightarrow> nat \<Rightarrow> walk \<Rightarrow> visit" where
  \<comment> \<open>What \<open>findRecursive\<close> does at one node, up to the loop over the entries.\<close>
  "visitNode h s env currentPath depth w =
     (if beyondMaxDepth (maxDepth env) depth then Stop w
      else
        (case stat h s currentPath of
           None \<Rightarrow> Stop (logEvent (EvStat currentPath) w)
         | Some st \<Rightarrow>
             (let w1 = logEvent (EvStat currentPath) w;
                  listed = (\<not> stat_isFile st \<and> stat_isDirectory st);
                  w2 = (if listed then logEvent (EvReaddir currentPath) w1 else w1)
              in if listed \<and> readdir h s currentPath = None then Throw ReaddirFailed
                 else
                   (let emp = (if stat_isFile st then stat_size st = Some 0
                               else if stat_isDirectory st then readdir h s currentPath = Some []
                               else False)
                    in case nodeMatches h env currentPath depth st emp of
                         Inl x \<Rightarrow> Throw x
                       | Inr matches \<Rightarrow>
                           (let w3 = (if matches then pushMatch env currentPath depth w2 else w2)
                            in if stat_isDirectory st then
                                 (case readdir h s currentPath of
                                    None \<Rightarrow> Throw ReaddirFailed
                                  | Some entries \<Rightarrow> Descend entries (logEvent (EvReaddir currentPath) w3))
                               else Stop w3)))))"

fun isFsEvent :: "event \<Rightarrow> bool" where
  "isFsEvent (EvStat p) = True"
| "isFsEvent (EvReaddir p) = True"
| "isFsEvent ev = False"

fun matchedPath :: "event \<Rightarrow> string list" where
  "matchedPath (EvMatch k q) = [q]"
| "matchedPath ev = []"

fun matchDepthFrom :: "int \<Rightarrow> event \<Rightarrow> bool" where
  "matchDepthFrom m (EvMatch k q) = (m \<le> int k)"
| "matchDepthFrom m ev = True"

definition newEvents :: "walk \<Rightarrow> walk \<Rightarrow> event list" where
  "newEvents w w' = drop (length (trace w)) (trace w')"

definition grows :: "walk \<Rightarrow> walk \<Rightarrow> event list \<Rightarrow> bool" where
  \<comment> \<open>The second walk is the first with these events logged and their matches pushed.\<close>
  "grows w w' evs =
     (trace w' = trace w @ evs \<and> results w' = results w @ concat (map matchedPath evs))"

fun nodeEvent :: "find_env \<Rightarrow> string \<Rightarrow> nat \<Rightarrow> event \<Rightarrow> bool" where
  "nodeEvent env p d (EvStat q) = (q = p)"
| "nodeEvent env p d (EvReaddir q) = (q = p)"
| "nodeEvent env p d (EvMatch k q) =
     (k = d \<and> q = nodeRelativePath env p \<and> atOrBeyondMinDepth (minDepth env) d)"
| "nodeEvent env p d ev = False"

fun matchAt :: "find_env \<Rightarrow> nat \<Rightarrow> event \<Rightarrow> bool" where
  "matchAt env d (EvMatch k q) = (d \<le> k \<and> atOrBeyondMinDepth (minDepth env) k)"
| "matchAt env d ev = True"

definition sameFs :: "walk \<Rightarrow> walk \<Rightarrow> bool" where
  "sameFs w1 w0 = (filter isFsEvent (trace w1) = filter isFsEvent (trace w0))"

definition scenarioTrace :: "bool \<Rightarrow> event list" where
  \<comment> \<open>The events of the full traversal of the scenario with no expression; the flag says
      whether the root is reported.\<close>
  "scenarioTrace withRoot =
     [EvStat ''/work'', EvReaddir ''/work''] @ (if withRoot then [EvMatch 0 ''.''] else [])
     @ [EvReaddir ''/work'',
        EvStat ''/work/a.txt'', EvMatch 1 ''./a.txt'',
        EvStat ''/work/b.log'', EvMatch 1 ''./b.log'',
        EvStat ''/work/d'', EvReaddir ''/work/d'', EvMatch 1 ''./d'',
        EvReaddir ''/work/d'', EvStat ''/work/d/c.txt'', EvMatch 2 ''./d/c.txt'']"

text \<open>What it means for the tree of the scenario to stand at a base path of a host.\<close>

definition isDirectoryStat :: "stat_result option \<Rightarrow> bool" where
  "isDirectoryStat x = (case x of None \<Rightarrow> False | Some st \<Rightarrow> stat_isDirectory st \<and> \<not> stat_isFile st)"

definition isFileStat :: "stat_result option \<Rightarrow> int \<Rightarrow> bool" where
  "isFileStat x n =
     (case x of None \<Rightarrow> False
      | Some st \<Rightarrow> stat_isFile st \<and> \<not> stat_isDirectory st \<and> stat_size st = Some n)"

definition holdsScenario :: "'s host \<Rightarrow> 's \<Rightarrow> string \<Rightarrow> bool" where
  \<comment> \<open>The tree of the scenario stands at \<open>base\<close> in the state \<open>s\<close> of the host: each entry is
      found at the path the traversal builds for it.\<close>
  "holdsScenario h s base =
     (isDirectoryStat (stat h s base)
      \<and> readdir h s base = Some [''a.txt'', ''b.log'', ''d'']
      \<and> isFileStat (stat h s (childPath base ''a.txt'')) 10
      \<and> isFileStat (stat h s (childPath base ''b.log'')) 0
      \<and> isDirectoryStat (stat h s (childPath base ''d''))
      \<and> readdir h s (childPath base ''d'') = Some [''c.txt'']
      \<and> isFileStat (stat h s (childPath (childPath base ''d'') ''c.txt'')) 5)"

text \<open>
  The regular expression of the rest of a pattern, the input left after a class, and the
  results the engine model interprets.
\<close>

definition quantifierChar :: "char \<Rightarrow> bool" where
  "quantifierChar c = (c \<in> set ''*+?{'')"

definition regexTail :: "string \<Rightarrow> string" where
  \<comment> \<open>What \<open>matchGlob\<close> appends for the rest of a pattern: its translation and the final \<open>$\<close>.\<close>
  "regexTail q = globToRegex q @ ''$''"

definition classRest :: "string \<Rightarrow> string option" where
  \<comment> \<open>The input left after the closing bracket of a class.\<close>
  "classRest y = map_option snd (classBody y)"

definition modelled :: "thrown + 'a \<Rightarrow> bool" where
  \<comment> \<open>A result of the engine that is a value or the \<open>SyntaxError\<close> of \<open>new RegExp\<close>.\<close>
  "modelled r = (case r of Inl e \<Rightarrow> e = RegExpSyntaxError | Inr v \<Rightarrow> True)"

section \<open>The glob matcher\<close>

text \<open>
  The engine model leaves regular-expression syntax aside that \<open>matchGlob\<close> never emits
  outside a class. The lemmas below show that this is sound: the parse of a translated
  pattern always resumes at the translation of a shorter rest of the pattern, so the
  result of \<open>matchGlob\<close> is a boolean or the \<open>SyntaxError\<close> of \<open>new RegExp\<close>.
\<close>

lemma regexTail_Nil: "regexTail [] = ''$''"
  by (simp add: regexTail_def)

lemma regexTail_star: "regexTail (CHR ''*'' # cs) = CHR ''.'' # CHR ''*'' # regexTail cs"
  by (simp add: regexTail_def)

lemma regexTail_query: "regexTail (CHR ''?'' # cs) = CHR ''.'' # regexTail cs"
  by (simp add: regexTail_def)

lemma regexTail_special:
  "isRegexSpecial c \<Longrightarrow> regexTail (c # cs) = CHR 0x5C # c # regexTail cs"
  by (auto simp: regexTail_def isRegexSpecial_def)

lemma regexTail_literal:
  "c \<noteq> CHR ''*'' \<Longrightarrow> c \<noteq> CHR ''?'' \<Longrightarrow> c \<noteq> CHR ''['' \<Longrightarrow> \<not> isRegexSpecial c \<Longrightarrow>
     regexTail (c # cs) = c # regexTail cs"
  by (simp add: regexTail_def)

lemma regexTail_open:
  "CHR '']'' \<notin> set cs \<Longrightarrow> regexTail (CHR ''['' # cs) = CHR ''['' # cs @ ''$''"
proof -
  assume "CHR '']'' \<notin> set cs"
  then have dw: "dropWhile (\<lambda>d. d \<noteq> CHR '']'') cs = []" by (induction cs) auto
  show ?thesis by (simp add: regexTail_def dw)
qed

lemma regexTail_class:
  "CHR '']'' \<notin> set u \<Longrightarrow>
     regexTail (CHR ''['' # u @ CHR '']'' # ds) = CHR ''['' # u @ CHR '']'' # regexTail ds"
proof -
  assume u: "CHR '']'' \<notin> set u"
  then have dw: "dropWhile (\<lambda>d. d \<noteq> CHR '']'') (u @ CHR '']'' # ds) = CHR '']'' # ds"
    and tw: "takeWhile (\<lambda>d. d \<noteq> CHR '']'') (u @ CHR '']'' # ds) = u"
    by (induction u) auto
  show ?thesis by (simp add: regexTail_def dw tw)
qed

lemma split_at_bracket:
  "CHR '']'' \<in> set cs \<Longrightarrow> \<exists>u ds. cs = u @ CHR '']'' # ds \<and> CHR '']'' \<notin> set u"
  by (metis split_list_first)

lemma regexTail_nonempty: "regexTail q \<noteq> []"
  by (simp add: regexTail_def)


lemma regex_head: "regexTail q = x # xs \<Longrightarrow> \<not> quantifierChar x"
proof (cases q)
  case Nil
  then show "regexTail q = x # xs \<Longrightarrow> \<not> quantifierChar x"
    by (auto simp: regexTail_Nil quantifierChar_def)
next
  case (Cons c cs)
  assume eq: "regexTail q = x # xs"
  consider "c = CHR ''*''" | "c = CHR ''?''" | "c = CHR ''[''" | "isRegexSpecial c"
    | "c \<noteq> CHR ''*''" "c \<noteq> CHR ''?''" "c \<noteq> CHR ''[''" "\<not> isRegexSpecial c"
    by blast
  then show "\<not> quantifierChar x"
  proof cases
    case 1
    with eq Cons show ?thesis by (auto simp: regexTail_star quantifierChar_def)
  next
    case 2
    with eq Cons show ?thesis by (auto simp: regexTail_query quantifierChar_def)
  next
    case 3
    show ?thesis
    proof (cases "CHR '']'' \<in> set cs")
      case True
      with split_at_bracket obtain u ds where "cs = u @ CHR '']'' # ds" "CHR '']'' \<notin> set u" by blast
      with eq Cons 3 show ?thesis by (auto simp: regexTail_class quantifierChar_def)
    next
      case False
      with eq Cons 3 show ?thesis by (auto simp: regexTail_open quantifierChar_def)
    qed
  next
    case 4
    with eq Cons show ?thesis by (auto simp: regexTail_special quantifierChar_def)
  next
    case 5
    with eq Cons have "x = c" by (simp add: regexTail_literal)
    with 5 show ?thesis by (auto simp: quantifierChar_def isRegexSpecial_def)
  qed
qed

lemma classRest_close: "classRest (CHR '']'' # ys) = Some ys"
  by (cases ys) (simp_all add: classRest_def)

lemma classRest_pair: "classRest (CHR 0x5C # d # ys) = classRest ys"
  by (cases "classBody ys") (auto simp: classRest_def)

lemma classRest_skip:
  "c \<noteq> CHR '']'' \<Longrightarrow> c \<noteq> CHR 0x5C \<Longrightarrow> ys \<noteq> [] \<Longrightarrow> classRest (c # ys) = classRest ys"
  by (cases ys; cases "classBody ys") (auto simp: classRest_def)

lemma classRest_no_bracket: "CHR '']'' \<notin> set y \<Longrightarrow> classRest y = None"
  by (induction y rule: classBody.induct) (auto simp: classRest_def)

lemma classRest_raw:
  "CHR '']'' \<notin> set u \<Longrightarrow> classRest (u @ CHR '']'' # r) = Some r' \<Longrightarrow>
     r' = r \<or> classRest r = Some r'"
proof (induction u rule: length_induct)
  case (1 u)
  show ?case
  proof (cases u)
    case Nil
    with 1(3) show ?thesis by (simp add: classRest_close)
  next
    case (Cons c u')
    show ?thesis
    proof (cases "c = CHR 0x5C")
      case True
      show ?thesis
      proof (cases u')
        case Nil
        with Cons True 1(3) show ?thesis by (simp add: classRest_pair)
      next
        case u': (Cons d u'')
        with Cons True 1(3) have "classRest (u'' @ CHR '']'' # r) = Some r'"
          by (simp add: classRest_pair)
        moreover from Cons u' 1(2) have "CHR '']'' \<notin> set u''" "length u'' < length u" by simp_all
        ultimately show ?thesis using 1(1) by blast
      qed
    next
      case False
      moreover from Cons 1(2) have "c \<noteq> CHR '']''" by auto
      ultimately have "classRest (c # u' @ CHR '']'' # r) = classRest (u' @ CHR '']'' # r)"
        by (intro classRest_skip) simp_all
      with Cons 1(3) have "classRest (u' @ CHR '']'' # r) = Some r'" by simp
      moreover from Cons 1(2) have "CHR '']'' \<notin> set u'" "length u' < length u" by simp_all
      ultimately show ?thesis using 1(1) by blast
    qed
  qed
qed


lemma classRest_tail:
  "classRest (regexTail q) = Some r \<Longrightarrow> \<exists>q'. r = regexTail q' \<and> length q' < length q"
proof (induction q arbitrary: r rule: measure_induct_rule [where f = length])
  case (less q)
  note IH = less.IH and rest = less.prems
  show ?case
  proof (cases q)
    case Nil
    with rest show ?thesis by (simp add: regexTail_Nil classRest_def)
  next
    case (Cons c cs)
    have shorter: "\<exists>q'. r = regexTail q' \<and> length q' < length q"
      if "classRest (regexTail cs) = Some r"
    proof -
      from Cons have "length cs < length q" by simp
      from IH [OF this that] obtain q' where "r = regexTail q'" "length q' < length cs" by blast
      with Cons have "r = regexTail q' \<and> length q' < length q" by simp
      then show ?thesis by (rule exI)
    qed
    consider "c = CHR ''*''" | "c = CHR ''?''" | "c = CHR ''[''" | "isRegexSpecial c"
      | "c \<noteq> CHR ''*''" "c \<noteq> CHR ''?''" "c \<noteq> CHR ''[''" "\<not> isRegexSpecial c"
      by blast
    then show ?thesis
    proof cases
      case 1
      with rest Cons have "classRest (regexTail cs) = Some r"
        by (simp add: regexTail_star classRest_skip regexTail_nonempty)
      then show ?thesis by (rule shorter)
    next
      case 2
      with rest Cons have "classRest (regexTail cs) = Some r"
        by (simp add: regexTail_query classRest_skip regexTail_nonempty)
      then show ?thesis by (rule shorter)
    next
      case 3
      show ?thesis
      proof (cases "CHR '']'' \<in> set cs")
        case False
        with 3 have "CHR '']'' \<notin> set (regexTail q)" by (simp add: Cons regexTail_open)
        with rest show ?thesis by (simp add: classRest_no_bracket)
      next
        case True
        with split_at_bracket obtain u ds where u: "cs = u @ CHR '']'' # ds" "CHR '']'' \<notin> set u"
          by blast
        with 3 Cons rest have cr: "classRest ((CHR ''['' # u) @ CHR '']'' # regexTail ds) = Some r"
          by (simp add: regexTail_class)
        from u have nb: "CHR '']'' \<notin> set (CHR ''['' # u)" by simp
        from u Cons have ds: "length ds < length q" by simp
        from classRest_raw [OF nb cr] show ?thesis
        proof (elim disjE)
          assume "r = regexTail ds"
          with ds have "r = regexTail ds \<and> length ds < length q" by simp
          then show ?thesis by (rule exI)
        next
          assume "classRest (regexTail ds) = Some r"
          from IH [OF ds this] obtain q' where "r = regexTail q'" "length q' < length ds" by blast
          with ds have "r = regexTail q' \<and> length q' < length q" by simp
          then show ?thesis by (rule exI)
        qed
      qed
    next
      case 4
      with rest Cons have "classRest (regexTail cs) = Some r"
        by (simp add: regexTail_special classRest_pair)
      then show ?thesis by (rule shorter)
    next
      case 5
      show ?thesis
      proof (cases "c = CHR '']''")
        case True
        with 5 rest Cons have "r = regexTail cs" by (simp add: regexTail_literal classRest_close)
        with Cons have "r = regexTail cs \<and> length cs < length q" by simp
        then show ?thesis by (rule exI)
      next
        case False
        moreover from 5 have "c \<noteq> CHR 0x5C" by (auto simp: isRegexSpecial_def)
        ultimately have "classRest (c # regexTail cs) = classRest (regexTail cs)"
          by (intro classRest_skip) (simp_all add: regexTail_nonempty)
        with 5 rest Cons have "classRest (regexTail cs) = Some r" by (simp add: regexTail_literal)
        then show ?thesis by (rule shorter)
      qed
    qed
  qed
qed


lemma parseTerms_once:
  assumes "parseAtom c cs = Inr (a, r)" "r \<noteq> []" "\<not> quantifierChar (hd r)"
    and "c \<notin> set ''^$*+?(){}|''"
  shows "parseTerms (c # cs) = consTerm (Once a) (parseTerms r)"
proof -
  from assms(2) obtain x xs where r: "r = x # xs" by (cases r) auto
  with assms(3) have "x \<noteq> CHR ''*''" "x \<notin> set ''+?{''" by (auto simp: quantifierChar_def)
  with assms(1,4) r show ?thesis by simp
qed


lemma parseTerms_star:
  assumes "parseAtom c cs = Inr (a, CHR ''*'' # r)" "r \<noteq> []" "\<not> quantifierChar (hd r)"
    and "c \<notin> set ''^$*+?(){}|''"
  shows "parseTerms (c # cs) = consTerm (Star a) (parseTerms r)"
proof -
  from assms(2,3) have "\<not> (r \<noteq> [] \<and> hd r = CHR ''?'')" by (auto simp: quantifierChar_def)
  with assms(1,4) show ?thesis by auto
qed

lemma modelled_consTerm: "modelled r \<Longrightarrow> modelled (consTerm t r)"
  by (cases r) (simp_all add: modelled_def consTerm_def)

lemma regexTail_head: "\<not> quantifierChar (hd (regexTail q))"
  using regex_head [of q] regexTail_nonempty [of q] by (cases "regexTail q") auto

lemma modelled_consItems: "modelled r \<Longrightarrow> modelled (consItems xs r)"
  by (cases r) (simp_all add: modelled_def consItems_def)

lemma modelled_error: "modelled (Inl RegExpSyntaxError)"
  by (simp add: modelled_def)

lemma classRanges_modelled: "modelled (classRanges s)"
proof (induction s rule: measure_induct_rule [where f = length])
  case (less s)
  show ?case
  proof (cases s)
    case Nil
    then show ?thesis by (simp add: modelled_def)
  next
    case (Cons c cs)
    obtain a r where ar: "classAtom c cs = (a, r)" by (cases "classAtom c cs")
    then have lr: "length r \<le> length cs" using classAtom_rest [of a r c cs] by simp
    have rec: "modelled (classRanges ys)" if "length ys \<le> length cs" for ys
      using less.IH [of ys] that Cons by simp
    have single: "modelled (consItems [Single a] (classRanges r))"
      using rec [OF lr] by (rule modelled_consItems)
    show ?thesis
    proof (cases r)
      case Nil
      with ar Cons single show ?thesis by simp
    next
      case r: (Cons dash r1)
      show ?thesis
      proof (cases r1)
        case Nil
        with ar Cons r single show ?thesis by simp
      next
        case r1: (Cons b r')
        obtain a2 r2 where a2: "classAtom b r' = (a2, r2)" by (cases "classAtom b r'")
        then have "length r2 \<le> length r'" using classAtom_rest [of a2 r2 b r'] by simp
        with lr r r1 have "length r2 \<le> length cs" by simp
        then have m2: "modelled (consItems xs (classRanges r2))" for xs
          using rec by (intro modelled_consItems)
        show ?thesis
        proof (cases "dash = CHR ''-''")
          case True
          with ar Cons r r1 a2 m2 show ?thesis
            by (cases a; cases a2) (simp_all add: modelled_error)
        next
          case False
          with ar Cons r r1 single show ?thesis by simp
        qed
      qed
    qed
  qed
qed

lemma parseClass_modelled: "modelled (parseClass x)"
proof (cases "classBody (if x \<noteq> [] \<and> hd x = CHR ''^'' then tl x else x)")
  case None
  then show ?thesis by (simp add: parseClass_def modelled_def)
next
  case (Some br)
  obtain body r where br: "br = (body, r)" by (cases br)
  with Some classRanges_modelled [of body] show ?thesis
    by (cases "classRanges body") (simp_all add: parseClass_def modelled_def)
qed

lemma parseClass_rest:
  "parseClass x = Inr (a, r) \<Longrightarrow> classRest (if x \<noteq> [] \<and> hd x = CHR ''^'' then tl x else x) = Some r"
  by (auto simp: parseClass_def classRest_def Let_def split: option.splits sum.splits)


lemma class_resumes:
  assumes cls: "parseClass x = Inr (a, r)" and x: "regexTail (CHR ''['' # cs) = CHR ''['' # x"
  shows "\<exists>q'. r = regexTail q' \<and> length q' < length (CHR ''['' # cs)"
proof (cases "CHR '']'' \<in> set cs")
  case False
  with x have "x = cs @ ''$''" by (simp add: regexTail_open)
  with False have "CHR '']'' \<notin> set (if x \<noteq> [] \<and> hd x = CHR ''^'' then tl x else x)"
    by (cases cs) auto
  then have "classRest (if x \<noteq> [] \<and> hd x = CHR ''^'' then tl x else x) = None"
    by (rule classRest_no_bracket)
  with parseClass_rest [OF cls] show ?thesis by simp
next
  case True
  with split_at_bracket obtain u ds where u: "cs = u @ CHR '']'' # ds" "CHR '']'' \<notin> set u"
    by blast
  with x have xu: "x = u @ CHR '']'' # regexTail ds" by (simp add: regexTail_class)
  let ?u = "if u \<noteq> [] \<and> hd u = CHR ''^'' then tl u else u"
  from xu have "(if x \<noteq> [] \<and> hd x = CHR ''^'' then tl x else x) = ?u @ CHR '']'' # regexTail ds"
    by (cases u) auto
  with parseClass_rest [OF cls] have cr: "classRest (?u @ CHR '']'' # regexTail ds) = Some r"
    by simp
  from u(2) have nb: "CHR '']'' \<notin> set ?u" by (cases u) auto
  from u have ds: "length ds < length (CHR ''['' # cs)" by simp
  from classRest_raw [OF nb cr] show ?thesis
  proof (elim disjE)
    assume "r = regexTail ds"
    with ds have "r = regexTail ds \<and> length ds < length (CHR ''['' # cs)" by simp
    then show ?thesis by (rule exI)
  next
    assume "classRest (regexTail ds) = Some r"
    from classRest_tail [OF this] obtain q' where "r = regexTail q'" "length q' < length ds" by blast
    with ds have "r = regexTail q' \<and> length q' < length (CHR ''['' # cs)" by simp
    then show ?thesis by (rule exI)
  qed
qed

lemma regexTail_bracket_head: "\<exists>x. regexTail (CHR ''['' # cs) = CHR ''['' # x"
proof (cases "CHR '']'' \<in> set cs")
  case True
  with split_at_bracket obtain u ds where "cs = u @ CHR '']'' # ds" "CHR '']'' \<notin> set u" by blast
  then show ?thesis by (simp add: regexTail_class)
next
  case False
  then show ?thesis by (simp add: regexTail_open)
qed

lemma parseTerms_tail_modelled: "modelled (parseTerms (regexTail q))"
proof (induction q rule: measure_induct_rule [where f = length])
  case (less q)
  show ?case
  proof (cases q)
    case Nil
    then show ?thesis by (simp add: regexTail_Nil consTerm_def modelled_def)
  next
    case (Cons c cs)
    have tail: "modelled (consTerm t (parseTerms (regexTail cs)))" for t
      using less.IH [of cs] Cons by (intro modelled_consTerm) simp
    note ne = regexTail_nonempty [of cs] and hd = regexTail_head [of cs]
    consider "c = CHR ''*''" | "c = CHR ''?''" | "c = CHR ''[''" | "isRegexSpecial c"
      | "c \<noteq> CHR ''*''" "c \<noteq> CHR ''?''" "c \<noteq> CHR ''[''" "\<not> isRegexSpecial c"
      by blast
    then show ?thesis
    proof cases
      case 1
      have "parseTerms (CHR ''.'' # CHR ''*'' # regexTail cs) = consTerm (Star AnyChar) (parseTerms (regexTail cs))"
        by (rule parseTerms_star [OF _ ne hd]) (simp_all add: parseAtom_def)
      with 1 Cons tail show ?thesis by (simp add: regexTail_star)
    next
      case 2
      have "parseTerms (CHR ''.'' # regexTail cs) = consTerm (Once AnyChar) (parseTerms (regexTail cs))"
        by (rule parseTerms_once [OF _ ne hd]) (simp_all add: parseAtom_def)
      with 2 Cons tail show ?thesis by (simp add: regexTail_query)
    next
      case 3
      from regexTail_bracket_head obtain x where x: "regexTail (CHR ''['' # cs) = CHR ''['' # x" by blast
      show ?thesis
      proof (cases "parseClass x")
        case (Inl e)
        with parseClass_modelled [of x] have "e = RegExpSyntaxError" by (simp add: modelled_def)
        with Inl 3 Cons x show ?thesis by (simp add: parseAtom_def modelled_def)
      next
        case (Inr ar)
        obtain a r where ar: "ar = (a, r)" by (cases ar)
        with Inr have cls: "parseClass x = Inr (a, r)" by simp
        from class_resumes [OF cls x] obtain q' where
          q': "r = regexTail q'" "length q' < length (CHR ''['' # cs)" by blast
        have "parseTerms (CHR ''['' # x) = consTerm (Once a) (parseTerms r)"
          by (rule parseTerms_once)
             (simp_all add: parseAtom_def cls q' regexTail_nonempty regexTail_head)
        moreover from q' 3 Cons have "modelled (parseTerms r)" using less.IH [of q'] by simp
        ultimately show ?thesis using 3 Cons x by (simp add: modelled_consTerm)
      qed
    next
      case 4
      then have "c \<in> set ''^$.*+?()[]{}|/'' \<or> c = CHR 0x5C" by (auto simp: isRegexSpecial_def)
      then have "parseTerms (CHR 0x5C # c # regexTail cs) = consTerm (Once (Literal (code c))) (parseTerms (regexTail cs))"
        by (intro parseTerms_once [OF _ ne hd]) (simp_all add: parseAtom_def)
      with 4 Cons tail show ?thesis by (simp add: regexTail_special)
    next
      case 5
      then have "parseTerms (c # regexTail cs) = consTerm (Once (Literal (code c))) (parseTerms (regexTail cs))"
        by (intro parseTerms_once [OF _ ne hd]) (auto simp: parseAtom_def isRegexSpecial_def)
      with 5 Cons tail show ?thesis by (simp add: regexTail_literal)
    qed
  qed
qed

lemma matchGlob_modelled: "modelled (matchGlob nm p ic)"
proof -
  have "parseTerms (''^'' @ globToRegex p @ ''$'') = consTerm AssertStart (parseTerms (regexTail p))"
    by (simp add: regexTail_def)
  with parseTerms_tail_modelled [of p] have "modelled (parseTerms (''^'' @ globToRegex p @ ''$''))"
    by (simp add: modelled_consTerm)
  then show ?thesis
    by (cases "parseTerms (''^'' @ globToRegex p @ ''$'')") (simp_all add: matchGlob_def regExpTest_def modelled_def)
qed


lemma parseTerms_piece:
  assumes "c \<noteq> CHR ''[''"
  shows "\<exists>t. parseTerms (regexTail (c # cs)) = consTerm t (parseTerms (regexTail cs))"
proof -
  note ne = regexTail_nonempty [of cs] and hd = regexTail_head [of cs]
  consider "c = CHR ''*''" | "c = CHR ''?''" | "isRegexSpecial c"
    | "c \<noteq> CHR ''*''" "c \<noteq> CHR ''?''" "c \<noteq> CHR ''[''" "\<not> isRegexSpecial c"
    using assms by blast
  then show ?thesis
  proof cases
    case 1
    have "parseTerms (CHR ''.'' # CHR ''*'' # regexTail cs) = consTerm (Star AnyChar) (parseTerms (regexTail cs))"
      by (rule parseTerms_star [OF _ ne hd]) (simp_all add: parseAtom_def)
    with 1 show ?thesis by (auto simp: regexTail_star)
  next
    case 2
    have "parseTerms (CHR ''.'' # regexTail cs) = consTerm (Once AnyChar) (parseTerms (regexTail cs))"
      by (rule parseTerms_once [OF _ ne hd]) (simp_all add: parseAtom_def)
    with 2 show ?thesis by (auto simp: regexTail_query)
  next
    case 3
    then have "c \<in> set ''^$.*+?()[]{}|/'' \<or> c = CHR 0x5C" by (auto simp: isRegexSpecial_def)
    then have "parseTerms (CHR 0x5C # c # regexTail cs) = consTerm (Once (Literal (code c))) (parseTerms (regexTail cs))"
      by (intro parseTerms_once [OF _ ne hd]) (simp_all add: parseAtom_def)
    with 3 show ?thesis by (auto simp: regexTail_special)
  next
    case 4
    then have "parseTerms (c # regexTail cs) = consTerm (Once (Literal (code c))) (parseTerms (regexTail cs))"
      by (intro parseTerms_once [OF _ ne hd]) (auto simp: parseAtom_def isRegexSpecial_def)
    with 4 show ?thesis by (auto simp: regexTail_literal)
  qed
qed

lemma parseTerms_no_bracket:
  "CHR ''['' \<notin> set p \<Longrightarrow> \<exists>ts. parseTerms (regexTail p) = Inr ts"
proof (induction p)
  case Nil
  then show ?case by (simp add: regexTail_Nil consTerm_def)
next
  case (Cons c cs)
  then obtain ts where ts: "parseTerms (regexTail cs) = Inr ts" by auto
  from Cons.prems have "c \<noteq> CHR ''[''" by auto
  from parseTerms_piece [OF this, of cs] obtain t where
    "parseTerms (regexTail (c # cs)) = consTerm t (parseTerms (regexTail cs))" by blast
  with ts show ?case by (simp add: consTerm_def)
qed

lemma parseTerms_open_bracket:
  "CHR ''['' \<in> set p \<Longrightarrow> CHR '']'' \<notin> set p \<Longrightarrow> parseTerms (regexTail p) = Inl RegExpSyntaxError"
proof (induction p)
  case Nil
  then show ?case by simp
next
  case (Cons c cs)
  show ?case
  proof (cases "c = CHR ''[''")
    case True
    from Cons.prems(2) have nb: "CHR '']'' \<notin> set cs" by simp
    then have "CHR '']'' \<notin> set (if cs @ ''$'' \<noteq> [] \<and> hd (cs @ ''$'') = CHR ''^'' then tl (cs @ ''$'') else cs @ ''$'')"
      by (cases cs) auto
    then have "classBody (if cs @ ''$'' \<noteq> [] \<and> hd (cs @ ''$'') = CHR ''^'' then tl (cs @ ''$'') else cs @ ''$'') = None"
      using classRest_no_bracket by (simp add: classRest_def)
    then have "parseClass (cs @ ''$'') = Inl RegExpSyntaxError"
      by (simp add: parseClass_def)
    with True nb show ?thesis by (simp add: regexTail_open parseAtom_def)
  next
    case False
    with Cons have "parseTerms (regexTail cs) = Inl RegExpSyntaxError" by auto
    moreover from parseTerms_piece [OF False, of cs] obtain t where
      "parseTerms (regexTail (c # cs)) = consTerm t (parseTerms (regexTail cs))" by blast
    ultimately show ?thesis by (simp add: consTerm_def)
  qed
qed

lemma matchGlob_parse:
  "matchGlob nm p ic =
     (case parseTerms (regexTail p) of
        Inl e \<Rightarrow> Inl e
      | Inr ts \<Rightarrow> Inr (list_ex (\<lambda>i. matchTerms ic (AssertStart # ts) (i = 0) (drop i nm)) [0..<Suc (length nm)]))"
  by (cases "parseTerms (regexTail p)") (simp_all add: matchGlob_def regExpTest_def regexTail_def consTerm_def)

text \<open>
  Claim C10 fails on the code. The matcher is not total: for every pattern that holds an
  opening bracket and no closing bracket, such as \<open>[\<close> or \<open>a[b\<close>, the class is copied to
  the end of the regular expression, \<open>new RegExp\<close> raises a \<open>SyntaxError\<close> (unterminated
  character class), and \<open>matchGlob\<close> throws instead of returning a boolean, whatever the
  name and the case flag.
\<close>

theorem matchGlob_unclosed_bracket:
  "(CHR ''['' \<in> set p \<and> CHR '']'' \<notin> set p \<longrightarrow> matchGlob nm p ignoreCase = Inl RegExpSyntaxError)
   \<and> matchGlob nm ''['' ignoreCase = Inl RegExpSyntaxError"
proof -
  have "matchGlob nm q ignoreCase = Inl RegExpSyntaxError"
    if "CHR ''['' \<in> set q" "CHR '']'' \<notin> set q" for q
    using parseTerms_open_bracket [OF that] by (simp add: matchGlob_parse)
  from this [of p] this [of "''[''"] show ?thesis by simp
qed

theorem matchGlob_unclosed_bracket_witness:
  "CHR ''['' \<in> set ''a[b'' \<and> CHR '']'' \<notin> set ''a[b''
   \<and> matchGlob ''a.txt'' ''a[b'' False = Inl RegExpSyntaxError
   \<and> matchGlob ''a.txt'' ''['' True = Inl RegExpSyntaxError"
  using matchGlob_unclosed_bracket [of "''a[b''" "''a.txt''" False]
    matchGlob_unclosed_bracket [of "''a[b''" "''a.txt''" True]
  by simp

text \<open>
  The matcher returns a boolean for every pattern that holds no opening bracket, and
  whatever the pattern its only failure is the \<open>SyntaxError\<close> of \<open>new RegExp\<close>.
\<close>

theorem matchGlob_total_without_bracket:
  "CHR ''['' \<notin> set p \<longrightarrow> (\<exists>b. matchGlob nm p ignoreCase = Inr b)"
proof
  assume "CHR ''['' \<notin> set p"
  from parseTerms_no_bracket [OF this] obtain ts where "parseTerms (regexTail p) = Inr ts" by blast
  then show "\<exists>b. matchGlob nm p ignoreCase = Inr b" by (simp add: matchGlob_parse)
qed

theorem matchGlob_total_without_bracket_witness:
  "CHR ''['' \<notin> set ''*.txt'' \<and> (\<exists>b. matchGlob ''a.txt'' ''*.txt'' False = Inr b)"
  using matchGlob_total_without_bracket [of "''*.txt''" "''a.txt''" False] by simp

theorem matchGlob_boolean_or_syntax_error:
  "(\<exists>b. matchGlob nm p ignoreCase = Inr b) \<or> matchGlob nm p ignoreCase = Inl RegExpSyntaxError"
  using matchGlob_modelled [of nm p ignoreCase]
  by (cases "matchGlob nm p ignoreCase") (simp_all add: modelled_def)

text \<open>
  The glob law of the spec: \<open>a.txt\<close> matches \<open>*.txt\<close>, \<open>a.txtx\<close> does not, and \<open>A.TXT\<close>
  matches it only without regard to case.
\<close>

theorem glob_law:
  "matchGlob ''a.txt'' ''*.txt'' False = Inr True
   \<and> matchGlob ''a.txtx'' ''*.txt'' False = Inr False
   \<and> matchGlob ''A.TXT'' ''*.txt'' True = Inr True
   \<and> matchGlob ''A.TXT'' ''*.txt'' False = Inr False"
  by (simp add: matchGlob_def regExpTest_def parseAtom_def consTerm_def isRegexSpecial_def code_def
      canonicalize_def)

section \<open>The size and negation predicates\<close>

text \<open>
  Claim C4. The predicate \<open>size{value = 1, unit = 512-byte blocks, comparison = exact}\<close> is
  true exactly when the byte size of the context lies in the half-open interval
  \<open>(0, 512]\<close>: the block count is the ceiling of size / 512. It is false for a file of 0
  bytes and for a file of 513 bytes.
\<close>

theorem size_one_block_exact:
  "evaluateExpression t (ESize 1 UnitB Exact) ctx = Inr (0 < size' ctx \<and> size' ctx \<le> 512)
   \<and> evaluateExpression t (ESize 1 UnitB Exact) (ctx\<lparr>size' := 0\<rparr>) = Inr False
   \<and> evaluateExpression t (ESize 1 UnitB Exact) (ctx\<lparr>size' := 513\<rparr>) = Inr False"
proof -
  have blocks: "\<lceil>(of_int n :: rat) / 512\<rceil> = - ((- n) div 512)" for n :: int
    using ceiling_divide_eq_div [of n 512, where ?'a = rat] by simp
  have "(- ((- n) div 512) = 1) = (0 < n \<and> n \<le> 512)" for n :: int
    by auto
  with blocks have "(\<lceil>(of_int n :: rat) / 512\<rceil> = 1) = (0 < n \<and> n \<le> 512)" for n :: int
    by simp
  from this [of "size' ctx"] this [of 0] this [of 513] show ?thesis by simp
qed

text \<open>
  Claim C5. For every expression \<open>E\<close> and every context \<open>C\<close>, evaluating \<open>not{E}\<close> on \<open>C\<close>
  yields the boolean negation of evaluating \<open>E\<close> on \<open>C\<close>; when the evaluation of \<open>E\<close>
  throws, so does that of \<open>not{E}\<close>. Negating twice gives the evaluation of \<open>E\<close> back. On
  predicates that cannot throw the result is a boolean: \<open>not{empty}\<close> is true exactly on
  the contexts that are not empty, \<open>not{type f}\<close> exactly on those that are not files.
\<close>

theorem negation_law:
  "evaluateExpression t (ENot e) ctx =
     (case evaluateExpression t e ctx of Inl x \<Rightarrow> Inl x | Inr b \<Rightarrow> Inr (\<not> b))
   \<and> evaluateExpression t (ENot (ENot e)) ctx = evaluateExpression t e ctx
   \<and> evaluateExpression t (ENot EEmpty) ctx = Inr (\<not> isEmpty ctx)
   \<and> evaluateExpression t (ENot (EType TypeF)) ctx = Inr (\<not> isFile ctx)
   \<and> evaluateExpression t (ENot (ENot (EType TypeD))) ctx = Inr (isDirectory ctx)"
  by (cases "evaluateExpression t e ctx") simp_all

section \<open>The expression builder\<close>










lemma parseInt_None_iff:
  "parseInt s = None \<longleftrightarrow>
     (case dropWhile isWhiteSpace s of
        [] \<Rightarrow> True
      | c # cs \<Rightarrow> if c = CHR ''+'' \<or> c = CHR ''-'' then (case cs of [] \<Rightarrow> True | d # _ \<Rightarrow> \<not> isDigit d)
                  else \<not> isDigit c)"
proof (cases "dropWhile isWhiteSpace s")
  case Nil
  then show ?thesis by (simp add: parseInt_def del: dropWhile_eq_Nil_conv)
next
  case (Cons c cs)
  then show ?thesis
    by (cases cs) (auto simp: parseInt_def Let_def isDigit_def code_def simp del: dropWhile_eq_Nil_conv)
qed

lemma sizeMatch_None_iff:
  "sizeMatch s = None \<longleftrightarrow>
     (takeWhile isDigit s = [] \<or> dropWhile isDigit s \<notin> {[], ''c'', ''k'', ''M'', ''G'', ''b''})"
  by (cases "dropWhile isDigit s"; cases "tl (dropWhile isDigit s)")
     (auto simp: sizeMatch_def Let_def)

lemma mtime_dropped:
  "parseInt (snd (splitSign v)) = None \<Longrightarrow>
     scanArgs (''-mtime'' # v # rest) i toks acts = scanArgs rest (i + 2) toks acts"
  by (cases "splitSign v") (simp add: mtimeTokens_def)

lemma size_dropped:
  "sizeMatch (snd (splitSign v)) = None \<Longrightarrow>
     scanArgs (''-size'' # v # rest) i toks acts = scanArgs rest (i + 2) toks acts"
  by (cases "splitSign v") (simp add: sizeTokens_def)

lemma digit_not_sign: "isDigit c \<Longrightarrow> c \<noteq> CHR ''+'' \<and> c \<noteq> CHR ''-'' \<and> \<not> isWhiteSpace c"
  by (auto simp: isDigit_def isWhiteSpace_def code_def)

lemma parseInt_digits:
  assumes "takeWhile isDigit b \<noteq> []"
  shows "parseInt b = Some (digitsValue (takeWhile isDigit b))"
proof -
  from assms obtain c cs where b: "b = c # cs" and d: "isDigit c"
    by (cases b) (auto split: if_splits)
  from digit_not_sign [OF d] show ?thesis
    by (simp add: parseInt_def b d Let_def)
qed

lemma splitSign_digits:
  assumes "takeWhile isDigit b \<noteq> []"
  shows "splitSign b = (Exact, b)" "splitSign (CHR ''+'' # b) = (More, b)"
    "splitSign (CHR ''-'' # b) = (Less, b)"
proof -
  from assms obtain c cs where b: "b = c # cs" and d: "isDigit c"
    by (cases b) (auto split: if_splits)
  from digit_not_sign [OF d] show "splitSign b = (Exact, b)"
    by (simp add: splitSign_def startsWith_def b)
  show "splitSign (CHR ''+'' # b) = (More, b)" "splitSign (CHR ''-'' # b) = (Less, b)"
    by (simp_all add: splitSign_def startsWith_def)
qed

lemma mtime_accepted:
  "parseInt (snd (splitSign v)) = Some n \<Longrightarrow>
     scanArgs (''-mtime'' # v # rest) i toks acts =
       scanArgs rest (i + 2) (toks @ [TExpr (EMtime n (fst (splitSign v)))]) acts"
  by (cases "splitSign v") (simp add: mtimeTokens_def)




lemma size_accepted:
  assumes "sizeMatch (snd (splitSign v)) = Some (ds, u)"
  shows "scanArgs (''-size'' # v # rest) i toks acts =
       scanArgs rest (i + 2) (toks @ [TExpr (ESize (digitsValue ds) (unitOf u) (fst (splitSign v)))]) acts"
proof -
  from assms have ds: "ds = takeWhile isDigit (snd (splitSign v))" "ds \<noteq> []"
    by (auto simp: sizeMatch_def Let_def split: if_splits)
  have "takeWhile isDigit ds = ds" unfolding ds(1) by simp
  with ds(2) parseInt_digits [of ds] have "parseInt ds = Some (digitsValue ds)" by simp
  with assms show ?thesis by (cases "splitSign v") (simp add: sizeTokens_def)
qed

text \<open>
  Claim C9 fails on the code for \<open>-mtime\<close>. The value of \<open>-mtime\<close> goes through \<open>parseInt\<close>,
  which reads the digits a string starts with and ignores what follows them, and the
  predicate is dropped only when the result is \<open>NaN\<close>. So a body that starts with a digit is
  accepted whatever follows the digits: after an optional \<open>+\<close> or \<open>-\<close> it yields the
  predicate for the leading number. \<open>-mtime 5x\<close> is read as \<open>-mtime 5\<close>, although its body
  is not numeric. The sibling branch for \<open>-size\<close> checks the whole body and drops \<open>5x\<close>, as
  it drops every body that is not a run of digits followed by at most one unit letter.

  Both branches in full: a \<open>-mtime\<close> value yields its predicate when \<open>parseInt\<close> of its body
  is a number and is dropped when it is \<open>NaN\<close>, that is when the body, after leading white
  space and an optional sign, does not start with a digit; a \<open>-size\<close> value yields its
  predicate when its body passes the check and is dropped when it does not. A dropped
  value is consumed without an error, and the scan goes on with the tokens and actions it
  had. The numbers are stated up to \<open>2\<^sup>5\<^sup>3\<close>, which a JavaScript number holds exactly.
\<close>

theorem mtime_digit_prefix_accepted:
  "(takeWhile isDigit b \<noteq> [] \<and> digitsValue (takeWhile isDigit b) \<le> 2 ^ 53 \<longrightarrow>
      scanArgs (''-mtime'' # b # rest) i toks acts =
        scanArgs rest (i + 2) (toks @ [TExpr (EMtime (digitsValue (takeWhile isDigit b)) Exact)]) acts
      \<and> scanArgs (''-mtime'' # (CHR ''+'' # b) # rest) i toks acts =
        scanArgs rest (i + 2) (toks @ [TExpr (EMtime (digitsValue (takeWhile isDigit b)) More)]) acts
      \<and> scanArgs (''-mtime'' # (CHR ''-'' # b) # rest) i toks acts =
        scanArgs rest (i + 2) (toks @ [TExpr (EMtime (digitsValue (takeWhile isDigit b)) Less)]) acts)
   \<and> (takeWhile isDigit b \<noteq> [] \<and> dropWhile isDigit b \<notin> {[], ''c'', ''k'', ''M'', ''G'', ''b''} \<longrightarrow>
      scanArgs (''-size'' # b # rest) i toks acts = scanArgs rest (i + 2) toks acts)
   \<and> parseExpressions [''-mtime'', ''5x''] 0 =
       \<lparr>expr = Some (EMtime 5 Exact), pathIndex = 2, error = None, actions = []\<rparr>
   \<and> parseExpressions [''-size'', ''5x''] 0 =
       \<lparr>expr = None, pathIndex = 2, error = None, actions = []\<rparr>
   \<and> (parseInt (snd (splitSign v)) = Some n \<and> \<bar>n\<bar> \<le> 2 ^ 53 \<longrightarrow>
      scanArgs (''-mtime'' # v # rest) i toks acts =
        scanArgs rest (i + 2) (toks @ [TExpr (EMtime n (fst (splitSign v)))]) acts)
   \<and> (parseInt (snd (splitSign v)) = None
      \<longrightarrow> scanArgs (''-mtime'' # v # rest) i toks acts = scanArgs rest (i + 2) toks acts)
   \<and> (sizeMatch (snd (splitSign v)) = Some (ds, u) \<and> digitsValue ds \<le> 2 ^ 53 \<longrightarrow>
      scanArgs (''-size'' # v # rest) i toks acts =
        scanArgs rest (i + 2) (toks @ [TExpr (ESize (digitsValue ds) (unitOf u) (fst (splitSign v)))]) acts)
   \<and> (sizeMatch (snd (splitSign v)) = None
      \<longrightarrow> scanArgs (''-size'' # v # rest) i toks acts = scanArgs rest (i + 2) toks acts)
   \<and> ((sizeMatch s = None) =
        (takeWhile isDigit s = [] \<or> dropWhile isDigit s \<notin> {[], ''c'', ''k'', ''M'', ''G'', ''b''}))
   \<and> ((parseInt s = None) =
        (case dropWhile isWhiteSpace s of
           [] \<Rightarrow> True
         | c # cs \<Rightarrow>
             if c = CHR ''+'' \<or> c = CHR ''-'' then (case cs of [] \<Rightarrow> True | d # _ \<Rightarrow> \<not> isDigit d)
             else \<not> isDigit c))"
proof -
  have acc: "scanArgs (''-mtime'' # b # rest) i toks acts =
        scanArgs rest (i + 2) (toks @ [TExpr (EMtime (digitsValue (takeWhile isDigit b)) Exact)]) acts"
    "scanArgs (''-mtime'' # (CHR ''+'' # b) # rest) i toks acts =
        scanArgs rest (i + 2) (toks @ [TExpr (EMtime (digitsValue (takeWhile isDigit b)) More)]) acts"
    "scanArgs (''-mtime'' # (CHR ''-'' # b) # rest) i toks acts =
        scanArgs rest (i + 2) (toks @ [TExpr (EMtime (digitsValue (takeWhile isDigit b)) Less)]) acts"
    if "takeWhile isDigit b \<noteq> []"
    using mtime_accepted [of b "digitsValue (takeWhile isDigit b)" rest i toks acts]
      mtime_accepted [of "CHR ''+'' # b" "digitsValue (takeWhile isDigit b)" rest i toks acts]
      mtime_accepted [of "CHR ''-'' # b" "digitsValue (takeWhile isDigit b)" rest i toks acts]
      splitSign_digits [OF that] parseInt_digits [OF that]
    by (simp_all del: scanArgs.simps)
  have sib: "scanArgs (''-size'' # b # rest) i toks acts = scanArgs rest (i + 2) toks acts"
    if "takeWhile isDigit b \<noteq> []" "dropWhile isDigit b \<notin> {[], ''c'', ''k'', ''M'', ''G'', ''b''}"
    using size_dropped [of b rest i toks acts] splitSign_digits(1) [OF that(1)] that
    by (simp add: sizeMatch_None_iff del: scanArgs.simps)
  have m5: "parseExpressions [''-mtime'', ''5x''] 0 =
       \<lparr>expr = Some (EMtime 5 Exact), pathIndex = 2, error = None, actions = []\<rparr>"
    by code_simp
  have s5: "parseExpressions [''-size'', ''5x''] 0 =
       \<lparr>expr = None, pathIndex = 2, error = None, actions = []\<rparr>"
    by code_simp
  note gen = mtime_accepted [of v n rest i toks acts] mtime_dropped [of v rest i toks acts]
    size_accepted [of v ds u rest i toks acts] size_dropped [of v rest i toks acts]
    sizeMatch_None_iff [of s] parseInt_None_iff [of s]
  from acc sib m5 s5 gen show ?thesis by blast
qed

theorem mtime_digit_prefix_accepted_witness:
  "takeWhile isDigit ''5x'' \<noteq> [] \<and> digitsValue (takeWhile isDigit ''5x'') = 5
   \<and> dropWhile isDigit ''5x'' \<notin> {[], ''c'', ''k'', ''M'', ''G'', ''b''}
   \<and> scanArgs [''-mtime'', ''5x'', ''-empty''] 0 [] [] = ScanDone 3 [TExpr (EMtime 5 Exact), TExpr EEmpty] []
   \<and> scanArgs [''-mtime'', ''+5x'', ''-empty''] 0 [] [] = ScanDone 3 [TExpr (EMtime 5 More), TExpr EEmpty] []
   \<and> scanArgs [''-mtime'', ''-5x'', ''-empty''] 0 [] [] = ScanDone 3 [TExpr (EMtime 5 Less), TExpr EEmpty] []
   \<and> scanArgs [''-size'', ''5x'', ''-empty''] 0 [] [] = ScanDone 3 [TExpr EEmpty] []
   \<and> parseInt (snd (splitSign ''+ 7 days'')) = Some 7
   \<and> scanArgs [''-mtime'', ''+ 7 days'', ''-empty''] 0 [] [] = ScanDone 3 [TExpr (EMtime 7 More), TExpr EEmpty] []
   \<and> sizeMatch (snd (splitSign ''+5k'')) = Some (''5'', ''k'')
   \<and> scanArgs [''-size'', ''+5k'', ''-empty''] 0 [] [] = ScanDone 3 [TExpr (ESize 5 UnitK More), TExpr EEmpty] []
   \<and> sizeMatch (snd (splitSign ''+5x'')) = None
   \<and> scanArgs [''-size'', ''+5x'', ''-empty''] 0 [] [] = ScanDone 3 [TExpr EEmpty] []
   \<and> parseInt (snd (splitSign ''-x5'')) = None
   \<and> scanArgs [''-mtime'', ''-x5'', ''-empty''] 0 [] [] = ScanDone 3 [TExpr EEmpty] []"
proof -
  have d: "takeWhile isDigit ''5x'' = ''5''" "dropWhile isDigit ''5x'' = ''x''"
    by (simp_all add: isDigit_def code_def)
  have v: "digitsValue ''5'' = 5" by (simp add: digitsValue_def code_def)
  have a: "sizeMatch (snd (splitSign ''+5x'')) = None" by code_simp
  have b: "parseInt (snd (splitSign ''-x5'')) = None" by code_simp
  have e: "parseInt (snd (splitSign ''+ 7 days'')) = Some 7" by code_simp
  have f: "sizeMatch (snd (splitSign ''+5k'')) = Some (''5'', ''k'')" by code_simp
  have g: "fst (splitSign ''+ 7 days'') = More" "fst (splitSign ''+5k'') = More" "unitOf ''k'' = UnitK"
    by (simp_all add: splitSign_def startsWith_def unitOf_def)
  have c: "scanArgs [''-empty''] (0 + 2) ts [] = ScanDone 3 (ts @ [TExpr EEmpty]) []" for ts by simp
  from mtime_digit_prefix_accepted [of "''5x''" "[''-empty'']" 0 "[]" "[]" "''+5x''" 7 "''5''" "''k''" "''x''"]
    mtime_digit_prefix_accepted [of "''5x''" "[''-empty'']" 0 "[]" "[]" "''-x5''" 7 "''5''" "''k''" "''x''"]
    mtime_digit_prefix_accepted [of "''5x''" "[''-empty'']" 0 "[]" "[]" "''+ 7 days''" 7 "''5''" "''k''" "''x''"]
    mtime_digit_prefix_accepted [of "''5x''" "[''-empty'']" 0 "[]" "[]" "''+5k''" 7 "''5''" "''k''" "''x''"]
    a b c d e f g v
  show ?thesis by (simp del: scanArgs.simps)
qed

section \<open>The newer predicate\<close>

lemma resolveNewerRefs_map:
  "fst (resolveNewerRefs h s e (m, evs)) p =
     (if p \<in> set (newerRefs e) \<and> refTime h s p \<noteq> None then refTime h s p else m p)"
proof (induction e arbitrary: m evs)
  case (ENewer q)
  then show ?case by (auto simp: refTime_def Let_def split: option.splits)
next
  case (EAnd l r)
  obtain m' evs' where l: "resolveNewerRefs h s l (m, evs) = (m', evs')"
    by (cases "resolveNewerRefs h s l (m, evs)")
  from EAnd.IH(1) [of m evs] l
  have "m' p = (if p \<in> set (newerRefs l) \<and> refTime h s p \<noteq> None then refTime h s p else m p)"
    by simp
  with EAnd.IH(2) [of m' evs'] l show ?case by auto
next
  case (EOr l r)
  obtain m' evs' where l: "resolveNewerRefs h s l (m, evs) = (m', evs')"
    by (cases "resolveNewerRefs h s l (m, evs)")
  from EOr.IH(1) [of m evs] l
  have "m' p = (if p \<in> set (newerRefs l) \<and> refTime h s p \<noteq> None then refTime h s p else m p)"
    by simp
  with EOr.IH(2) [of m' evs'] l show ?case by auto
qed simp_all

text \<open>
  Claim C6. The predicate \<open>newer{referencePath}\<close> is true exactly when the modification
  time of the node is strictly greater than the one recorded for the reference path, and
  false, without an error, when none is recorded. After the reference resolution of the
  tree it occurs in, the time recorded is that of the stat of the resolved reference
  path (the current time when the stat carries none), and none is recorded when that
  stat fails: the predicate is then false for every node.
\<close>

theorem newer_predicate:
  "evaluateExpression t (ENewer p) ctx =
     Inr (case newerRefTimes ctx p of None \<Rightarrow> False | Some r \<Rightarrow> r < mtime ctx)
   \<and> (p \<in> set (newerRefs e) \<longrightarrow>
        evaluateExpression t (ENewer p)
          (ctx\<lparr>newerRefTimes := fst (resolveNewerRefs h s e (Map.empty, evs))\<rparr>) =
        Inr (case stat h s (resolvePath h (cwd h) p) of
               None \<Rightarrow> False
             | Some rs \<Rightarrow> (case stat_mtime rs of Some r \<Rightarrow> r | None \<Rightarrow> now h) < mtime ctx))"
  by (auto simp: resolveNewerRefs_map refTime_def split: option.splits)

theorem newer_predicate_witness:
  "''a.txt'' \<in> set (newerRefs (EAnd (ENewer ''a.txt'') (ENot (ENewer ''gone''))))
   \<and> evaluateExpression 0 (ENewer ''a.txt'')
        ((namedContext ''c.txt'')
           \<lparr>mtime := 3000,
            newerRefTimes := fst (resolveNewerRefs scenarioHost []
              (EAnd (ENewer ''a.txt'') (ENot (ENewer ''gone''))) (Map.empty, []))\<rparr>) = Inr True
   \<and> evaluateExpression 0 (ENewer ''a.txt'')
        ((namedContext ''a.txt'')
           \<lparr>mtime := 2000,
            newerRefTimes := fst (resolveNewerRefs scenarioHost []
              (EAnd (ENewer ''a.txt'') (ENot (ENewer ''gone''))) (Map.empty, []))\<rparr>) = Inr False
   \<and> ''gone'' \<in> set (newerRefs (EAnd (ENewer ''a.txt'') (ENot (ENewer ''gone''))))
   \<and> evaluateExpression 0 (ENewer ''gone'')
        ((namedContext ''c.txt'')
           \<lparr>mtime := 3000,
            newerRefTimes := fst (resolveNewerRefs scenarioHost []
              (EAnd (ENewer ''a.txt'') (ENot (ENewer ''gone''))) (Map.empty, []))\<rparr>) = Inr False"
proof -
  let ?e = "EAnd (ENewer ''a.txt'') (ENot (ENewer ''gone''))"
  have a: "stat scenarioHost [] (resolvePath scenarioHost (cwd scenarioHost) ''a.txt'') = Some (fileStat 10 2000)"
    by (simp add: scenarioHost_def scenarioResolve_def scenarioStat_def startsWith_def)
  have g: "stat scenarioHost [] (resolvePath scenarioHost (cwd scenarioHost) ''gone'') = None"
    by (simp add: scenarioHost_def scenarioResolve_def scenarioStat_def startsWith_def)
  have m: "mtime ((namedContext n)\<lparr>mtime := k\<rparr>) = k" for n k by simp
  from newer_predicate [of 0 "''a.txt''" "(namedContext ''c.txt'')\<lparr>mtime := 3000\<rparr>" ?e scenarioHost "[]" "[]"]
    newer_predicate [of 0 "''a.txt''" "(namedContext ''a.txt'')\<lparr>mtime := 2000\<rparr>" ?e scenarioHost "[]" "[]"]
    newer_predicate [of 0 "''gone''" "(namedContext ''c.txt'')\<lparr>mtime := 3000\<rparr>" ?e scenarioHost "[]" "[]"]
    a g
  show ?thesis by (simp add: fileStat_def)
qed


section \<open>The delete action\<close>

lemma deleteFiles_stdout: "stdout (out (deleteFiles h files oc)) = stdout (out oc)"
  by (induction files arbitrary: oc) (auto simp: Let_def split: prod.splits option.splits)

lemma deleteFiles_events:
  "events (deleteFiles h files oc) =
     events oc @ map (\<lambda>f. EvRm (resolvePath h (cwd h) f) \<lparr>recursive = False\<rparr>) files"
  by (induction files arbitrary: oc) (auto simp: Let_def split: prod.splits option.splits)

lemma deleteFiles_fs: "fs (deleteFiles h files oc) = removeAll h (fs oc) files"
  by (induction files arbitrary: oc)
     (auto simp: Let_def removeAll_def removeOne_def split: prod.splits option.splits)

lemma deleteFiles_stderr:
  "stderr (out (deleteFiles h files oc)) =
     stderr (out oc) @ concat (map failureLine (rmOutcomes h (fs oc) files))"
  by (induction files arbitrary: oc)
     (auto simp: Let_def failureLine_def deleteMessage_def removeOne_def split: prod.splits option.splits)

lemma deleteFiles_exitCode:
  "exitCode (out (deleteFiles h files oc)) =
     (if list_ex (\<lambda>a. snd a \<noteq> None) (rmOutcomes h (fs oc) files) then 1 else exitCode (out oc))"
  by (induction files arbitrary: oc)
     (auto simp: Let_def removeOne_def split: prod.splits option.splits)

lemma rmOutcomes_append:
  "rmOutcomes h s (xs @ ys) = rmOutcomes h s xs @ rmOutcomes h (removeAll h s xs) ys"
  by (induction xs arbitrary: s) (simp_all add: removeAll_def)

lemma rmOutcomes_all_succeed:
  "list_all (\<lambda>a. snd a = None) ocs \<Longrightarrow>
     concat (map failureLine ocs) = [] \<and> \<not> list_ex (\<lambda>a. snd a \<noteq> None) ocs"
  by (induction ocs) (auto simp: failureLine_def)

lemma sortedForDelete_descending:
  "sorted_wrt (\<lambda>a b. length b \<le> length a) (sortedForDelete rs)"
proof -
  have "sorted (map (\<lambda>f. - int (length f)) (sortedForDelete rs))"
    unfolding sortedForDelete_def by (rule sorted_sort_key)
  then show ?thesis by (simp add: sorted_map)
qed

lemma sortedForDelete_mset: "mset (sortedForDelete rs) = mset rs"
  by (simp add: sortedForDelete_def)

lemma sortedForDelete_stable:
  "filter (\<lambda>f. length f = k) (sortedForDelete rs) = filter (\<lambda>f. length f = k) rs"
  using sort_key_stable [of "\<lambda>f. - int (length f)" "- int k" rs]
  by (simp add: sortedForDelete_def)

text \<open>
  Claim C8. The \<open>delete\<close> action works on the matches sorted by descending path length (a
  stable sort, so a permutation of the matches). It calls the removal of the host once
  for every match, in that order and with \<open>recursive: false\<close>, whatever the earlier removals
  did, and the file system it leaves is the one these removals leave, each applied to the
  state left by the one before. The outcome of a removal is that of the host in the state
  the earlier removals left. Standard output is untouched; standard error gains one line
  for each removal that failed and nothing else; the exit code becomes 1 when a removal
  failed. When every removal succeeds, standard error and the exit code are left as they
  were (empty and 0 when \<open>delete\<close> is the first action).
\<close>

theorem delete_action:
  "mset (sortedForDelete rs) = mset rs
   \<and> sorted_wrt (\<lambda>a b. length b \<le> length a) (sortedForDelete rs)
   \<and> filter (\<lambda>f. length f = k) (sortedForDelete rs) = filter (\<lambda>f. length f = k) rs
   \<and> events (runActions h rs [Delete] oc) =
       events oc @ map (\<lambda>f. EvRm (resolvePath h (cwd h) f) \<lparr>recursive = False\<rparr>) (sortedForDelete rs)
   \<and> fs (runActions h rs [Delete] oc) =
       foldl (\<lambda>s f. snd (rm h s (resolvePath h (cwd h) f) \<lparr>recursive = False\<rparr>)) (fs oc)
         (sortedForDelete rs)
   \<and> map fst (rmOutcomes h (fs oc) (sortedForDelete rs)) = sortedForDelete rs
   \<and> rmOutcomes h s (xs @ [f]) =
       rmOutcomes h s xs
       @ [(f, fst (rm h (foldl (\<lambda>s f. snd (rm h s (resolvePath h (cwd h) f) \<lparr>recursive = False\<rparr>)) s xs)
                     (resolvePath h (cwd h) f) \<lparr>recursive = False\<rparr>))]
   \<and> stdout (out (runActions h rs [Delete] oc)) = stdout (out oc)
   \<and> stderr (out (runActions h rs [Delete] oc)) =
       stderr (out oc) @ concat (map failureLine (rmOutcomes h (fs oc) (sortedForDelete rs)))
   \<and> exitCode (out (runActions h rs [Delete] oc)) =
       (if list_ex (\<lambda>a. snd a \<noteq> None) (rmOutcomes h (fs oc) (sortedForDelete rs)) then 1
        else exitCode (out oc))
   \<and> (list_all (\<lambda>a. snd a = None) (rmOutcomes h (fs oc) (sortedForDelete rs)) \<longrightarrow>
        out (runActions h rs [Delete] oc) = out oc)"
proof -
  let ?step = "\<lambda>s f. snd (rm h s (resolvePath h (cwd h) f) \<lparr>recursive = False\<rparr>)"
  have all: "removeAll h s' files = foldl ?step s' files" for s' files
    by (simp add: removeAll_def removeOne_def)
  have names: "map fst (rmOutcomes h s' files) = files" for s' files
    by (induction files arbitrary: s') simp_all
  have snoc: "rmOutcomes h s (xs @ [f]) =
      rmOutcomes h s xs @ [(f, fst (rm h (foldl ?step s xs) (resolvePath h (cwd h) f) \<lparr>recursive = False\<rparr>))]"
    by (simp add: rmOutcomes_append all) (simp add: removeOne_def)
  have quiet: "out (runActions h rs [Delete] oc) = out oc"
    if "list_all (\<lambda>a. snd a = None) (rmOutcomes h (fs oc) (sortedForDelete rs))"
  proof -
    from rmOutcomes_all_succeed [OF that]
    have "stdout (out (runActions h rs [Delete] oc)) = stdout (out oc)"
      "stderr (out (runActions h rs [Delete] oc)) = stderr (out oc)"
      "exitCode (out (runActions h rs [Delete] oc)) = exitCode (out oc)"
      by (simp_all add: deleteFiles_stdout deleteFiles_stderr deleteFiles_exitCode)
    then show ?thesis by (rule exec_result.equality) simp
  qed
  have fs: "fs (runActions h rs [Delete] oc) = foldl ?step (fs oc) (sortedForDelete rs)"
    by (simp add: deleteFiles_fs all)
  from names snoc quiet fs show ?thesis
    by (simp add: sortedForDelete_mset sortedForDelete_descending sortedForDelete_stable
        deleteFiles_stdout deleteFiles_events deleteFiles_stderr deleteFiles_exitCode)
qed

theorem delete_action_witness:
  "sortedForDelete [''./d'', ''./nope'', ''./d/c.txt''] = [''./d/c.txt'', ''./nope'', ''./d'']
   \<and> rmOutcomes scenarioHost [] [''./d/c.txt'', ''./nope'', ''./d''] =
       [(''./d/c.txt'', None), (''./nope'', Some ''No such file or directory''), (''./d'', None)]
   \<and> runActions scenarioHost [''./d'', ''./nope'', ''./d/c.txt''] [Delete]
        \<lparr>out = \<lparr>stdout = [], stderr = [], exitCode = 0\<rparr>, fs = [], events = []\<rparr> =
       \<lparr>out = \<lparr>stdout = [],
               stderr = ''find: cannot delete '' @ [CHR 0x27] @ ''./nope'' @ [CHR 0x27]
                        @ '': No such file or directory'' @ [CHR 0x0A],
               exitCode = 1\<rparr>,
        fs = [''/work/d'', ''/work/d/c.txt''],
        events = [EvRm ''/work/d/c.txt'' \<lparr>recursive = False\<rparr>, EvRm ''/work/nope'' \<lparr>recursive = False\<rparr>,
                  EvRm ''/work/d'' \<lparr>recursive = False\<rparr>]\<rparr>
   \<and> list_all (\<lambda>a. snd a = None) (rmOutcomes scenarioHost [] (sortedForDelete [''./d'', ''./d/c.txt'']))
   \<and> runActions scenarioHost [''./d'', ''./d/c.txt''] [Delete]
        \<lparr>out = \<lparr>stdout = [], stderr = [], exitCode = 0\<rparr>, fs = [], events = []\<rparr> =
       \<lparr>out = \<lparr>stdout = [], stderr = [], exitCode = 0\<rparr>,
        fs = [''/work/d'', ''/work/d/c.txt''],
        events = [EvRm ''/work/d/c.txt'' \<lparr>recursive = False\<rparr>, EvRm ''/work/d'' \<lparr>recursive = False\<rparr>]\<rparr>
   \<and> runActions scenarioHost [''./d''] [Delete]
        \<lparr>out = \<lparr>stdout = [], stderr = [], exitCode = 0\<rparr>, fs = [], events = []\<rparr> =
       \<lparr>out = \<lparr>stdout = [],
               stderr = ''find: cannot delete '' @ [CHR 0x27] @ ''./d'' @ [CHR 0x27]
                        @ '': Directory not empty'' @ [CHR 0x0A],
               exitCode = 1\<rparr>,
        fs = [],
        events = [EvRm ''/work/d'' \<lparr>recursive = False\<rparr>]\<rparr>"
proof -
  let ?rs = "[''./d'', ''./nope'', ''./d/c.txt'']"
  let ?oc = "\<lparr>out = \<lparr>stdout = [], stderr = [], exitCode = 0\<rparr>, fs = ([] :: string list), events = []\<rparr>"
  let ?no = "\<lparr>recursive = False\<rparr>"
  have srt: "sortedForDelete ?rs = [''./d/c.txt'', ''./nope'', ''./d'']"
    "sortedForDelete [''./d'', ''./d/c.txt''] = [''./d/c.txt'', ''./d'']"
    "sortedForDelete [''./d''] = [''./d'']"
    by (simp_all add: sortedForDelete_def)
  have res: "resolvePath scenarioHost (cwd scenarioHost) ''./d/c.txt'' = ''/work/d/c.txt''"
    "resolvePath scenarioHost (cwd scenarioHost) ''./nope'' = ''/work/nope''"
    "resolvePath scenarioHost (cwd scenarioHost) ''./d'' = ''/work/d''"
    by (simp_all add: scenarioHost_def scenarioResolve_def startsWith_def)
  have rm1: "rm scenarioHost [] ''/work/d/c.txt'' ?no = (None, [''/work/d/c.txt''])"
    by (simp add: scenarioHost_def scenarioRm_def scenarioStat_def scenarioReaddir_def
        scenarioEntries_def)
  have rm2: "rm scenarioHost [''/work/d/c.txt''] ''/work/nope'' ?no =
      (Some ''No such file or directory'', [''/work/d/c.txt''])"
    by (simp add: scenarioHost_def scenarioRm_def scenarioStat_def)
  have rm3: "rm scenarioHost [''/work/d/c.txt''] ''/work/d'' ?no = (None, [''/work/d'', ''/work/d/c.txt''])"
    by (simp add: scenarioHost_def scenarioRm_def scenarioStat_def scenarioReaddir_def
        scenarioEntries_def childPath_def)
  have rm4: "rm scenarioHost [] ''/work/d'' ?no = (Some ''Directory not empty'', [])"
    by (simp add: scenarioHost_def scenarioRm_def scenarioStat_def scenarioReaddir_def
        scenarioEntries_def childPath_def)
  have outs: "rmOutcomes scenarioHost [] [''./d/c.txt'', ''./nope'', ''./d''] =
      [(''./d/c.txt'', None), (''./nope'', Some ''No such file or directory''), (''./d'', None)]"
    "rmOutcomes scenarioHost [] [''./d/c.txt'', ''./d''] = [(''./d/c.txt'', None), (''./d'', None)]"
    "rmOutcomes scenarioHost [] [''./d''] = [(''./d'', Some ''Directory not empty'')]"
    by (simp_all add: removeOne_def res rm1 rm2 rm3 rm4)
  have eq: "r = \<lparr>out = \<lparr>stdout = stdout (out r), stderr = stderr (out r), exitCode = exitCode (out r)\<rparr>,
                 fs = fs r, events = events r\<rparr>" for r :: "string list outcome"
    by simp
  from delete_action [of ?rs 0 scenarioHost ?oc]
    delete_action [of "[''./d'', ''./d/c.txt'']" 0 scenarioHost ?oc]
    delete_action [of "[''./d'']" 0 scenarioHost ?oc]
    srt outs res rm1 rm2 rm3 rm4
  have "runActions scenarioHost ?rs [Delete] ?oc =
       \<lparr>out = \<lparr>stdout = [],
               stderr = ''find: cannot delete '' @ [CHR 0x27] @ ''./nope'' @ [CHR 0x27]
                        @ '': No such file or directory'' @ [CHR 0x0A],
               exitCode = 1\<rparr>,
        fs = [''/work/d'', ''/work/d/c.txt''],
        events = [EvRm ''/work/d/c.txt'' ?no, EvRm ''/work/nope'' ?no, EvRm ''/work/d'' ?no]\<rparr>"
    and "runActions scenarioHost [''./d'', ''./d/c.txt''] [Delete] ?oc =
       \<lparr>out = \<lparr>stdout = [], stderr = [], exitCode = 0\<rparr>,
        fs = [''/work/d'', ''/work/d/c.txt''],
        events = [EvRm ''/work/d/c.txt'' ?no, EvRm ''/work/d'' ?no]\<rparr>"
    and "runActions scenarioHost [''./d''] [Delete] ?oc =
       \<lparr>out = \<lparr>stdout = [],
               stderr = ''find: cannot delete '' @ [CHR 0x27] @ ''./d'' @ [CHR 0x27]
                        @ '': Directory not empty'' @ [CHR 0x0A],
               exitCode = 1\<rparr>,
        fs = [],
        events = [EvRm ''/work/d'' ?no]\<rparr>"
    by (subst eq, simp add: failureLine_def deleteMessage_def del: runActions.simps)+
  with srt outs show ?thesis by (simp del: runActions.simps)
qed

section \<open>Parse errors\<close>

lemma scan_unknown_flag:
  assumes "startsWith x ''-''" "x \<notin> set knownFlags"
  shows "scanArgs (x # rest) i toks acts = ScanError i (unknownPredicate x)"
proof -
  from assms(1) have "x \<noteq> ''!''" by (auto simp: startsWith_def)
  with assms show ?thesis
    by (simp add: knownFlags_def unknownPredicate_def)
qed
lemma scan_exec_unterminated:
  assumes "list_all (\<lambda>a. \<not> isTerminator a) cmd"
  shows "scanArgs (''-exec'' # cmd) i toks acts = ScanError (i + 1 + length cmd) missingExecArgument"
proof -
  from assms have tw: "takeWhile (\<lambda>a. \<not> isTerminator a) cmd = cmd"
    and dw: "dropWhile (\<lambda>a. \<not> isTerminator a) cmd = []"
    by (induction cmd) auto
  show ?thesis by (simp add: missingExecArgument_def Let_def tw dw)
qed
lemma scan_bare:
  assumes "bare a"
  shows "scanArgs (a # rest) i [] acts = scanArgs rest (i + 1) [] acts"
proof -
  from assms have n: "\<not> startsWith a ''-''" and "a \<noteq> ''!''" by (simp_all add: bare_def)
  from n have "a \<notin> set knownFlags" by (auto simp: knownFlags_def startsWith_def)
  with n \<open>a \<noteq> ''!''\<close> show ?thesis by (simp add: knownFlags_def)
qed

lemma scan_skips_paths:
  "list_all bare paths \<Longrightarrow>
     scanArgs (paths @ rest) i [] acts = scanArgs rest (i + length paths) [] acts"
proof (induction paths arbitrary: i)
  case Nil
  then show ?case by simp
next
  case (Cons a paths)
  from Cons.prems have a: "bare a" and ps: "list_all bare paths" by simp_all
  from scan_bare [OF a] Cons.IH [OF ps, of "i + 1"] show ?case by (simp del: scanArgs.simps)
qed

lemma execute_parse_error:
  assumes "\<not> hasHelpFlag h args" "error (parseExpressions args 0) = Some e" "e \<noteq> []"
  shows "execute h s fuel args =
    Some (Inr \<lparr>out = \<lparr>stdout = [], stderr = e, exitCode = 1\<rparr>, fs = s, events = []\<rparr>)"
  using assms by (simp add: execute_def truthy_def failure_def Let_def split: prod.splits)

text \<open>
  Claim C7, as amended. When no help flag is given and the tokenizer reports an error,
  the invocation returns empty standard output, the error as standard error and exit
  code 1, and performs no file-system operation. The tokenizer reports an error when its
  scan reaches a flag-shaped token it does not recognise, or an \<open>-exec\<close> with no \<open>;\<close> or
  \<open>+\<close> after it; this is so in particular when only bare path arguments precede the
  token. A token that the scan does not reach raises nothing: the scan stops, without an
  error, at a bare argument that follows a predicate, whatever comes after it.
\<close>

theorem parse_error_result:
  "(\<not> hasHelpFlag h args \<and> error (parseExpressions args 0) = Some e \<and> e \<noteq> []
      \<longrightarrow> execute h s fuel args =
            Some (Inr \<lparr>out = \<lparr>stdout = [], stderr = e, exitCode = 1\<rparr>, fs = s, events = []\<rparr>))
   \<and> (startsWith x ''-'' \<and> x \<notin> set knownFlags
      \<longrightarrow> scanArgs (x # rest) i toks acts = ScanError i (unknownPredicate x))
   \<and> (list_all (\<lambda>a. \<not> isTerminator a) cmd
      \<longrightarrow> scanArgs (''-exec'' # cmd) i toks acts = ScanError (i + 1 + length cmd) missingExecArgument)
   \<and> (\<not> hasHelpFlag h (paths @ x # rest) \<and> list_all bare paths \<and> startsWith x ''-'' \<and> x \<notin> set knownFlags
      \<longrightarrow> execute h s fuel (paths @ x # rest) =
            Some (Inr \<lparr>out = \<lparr>stdout = [], stderr = unknownPredicate x, exitCode = 1\<rparr>,
                       fs = s, events = []\<rparr>))
   \<and> (\<not> hasHelpFlag h (paths @ ''-exec'' # cmd) \<and> list_all bare paths \<and> list_all (\<lambda>a. \<not> isTerminator a) cmd
      \<longrightarrow> execute h s fuel (paths @ ''-exec'' # cmd) =
            Some (Inr \<lparr>out = \<lparr>stdout = [], stderr = missingExecArgument, exitCode = 1\<rparr>,
                       fs = s, events = []\<rparr>))
   \<and> (bare y \<and> toks \<noteq> [] \<longrightarrow> scanArgs (y # rest) i toks acts = ScanDone i toks acts)"
proof -
  have stop: "scanArgs (y # rest) i toks acts = ScanDone i toks acts" if "bare y" "toks \<noteq> []"
  proof -
    from that have n: "\<not> startsWith y ''-''" and "y \<noteq> ''!''" by (simp_all add: bare_def)
    from n have "y \<notin> set knownFlags" by (auto simp: knownFlags_def startsWith_def)
    with n \<open>y \<noteq> ''!''\<close> that(2) show ?thesis by (simp add: knownFlags_def)
  qed
  have unknown: "error (parseExpressions (paths @ x # rest) 0) = Some (unknownPredicate x)"
    if "list_all bare paths" "startsWith x ''-''" "x \<notin> set knownFlags"
    using that scan_skips_paths [of paths "x # rest" 0 "[]"] scan_unknown_flag [of x rest "length paths" "[]" "[]"]
    by (simp add: parseExpressions_def del: scanArgs.simps)
  have unterminated: "error (parseExpressions (paths @ ''-exec'' # cmd) 0) = Some missingExecArgument"
    if "list_all bare paths" "list_all (\<lambda>a. \<not> isTerminator a) cmd"
    using that scan_skips_paths [of paths "''-exec'' # cmd" 0 "[]"]
      scan_exec_unterminated [of cmd "length paths" "[]" "[]"]
    by (simp add: parseExpressions_def del: scanArgs.simps)
  have ne: "unknownPredicate x \<noteq> []" "missingExecArgument \<noteq> []"
    by (simp_all add: unknownPredicate_def missingExecArgument_def)
  show ?thesis
    using execute_parse_error [of h args e s fuel]
      execute_parse_error [of h "paths @ x # rest" "unknownPredicate x" s fuel]
      execute_parse_error [of h "paths @ ''-exec'' # cmd" missingExecArgument s fuel]
      scan_unknown_flag [of x rest i toks acts] scan_exec_unterminated [of cmd i toks acts]
      unknown unterminated ne stop
    by blast
qed

theorem parse_error_result_witness:
  "execute scenarioHost [] 0 [''d'', ''-bogus'', ''-print''] =
     Some (Inr \<lparr>out = \<lparr>stdout = [], stderr = unknownPredicate ''-bogus'', exitCode = 1\<rparr>,
                fs = [], events = []\<rparr>)
   \<and> execute scenarioHost [] 0 [''d'', ''-exec'', ''rm'', ''{}''] =
     Some (Inr \<lparr>out = \<lparr>stdout = [], stderr = missingExecArgument, exitCode = 1\<rparr>,
                fs = [], events = []\<rparr>)
   \<and> scanArgs [''-bogus''] 7 [TNot] [Print] = ScanError 7 (unknownPredicate ''-bogus'')
   \<and> scanArgs [''-exec'', ''rm'', ''{}''] 2 [TNot] [Print] = ScanError 5 missingExecArgument
   \<and> error (parseExpressions [''-type'', ''x''] 0) = Some (''find: Unknown argument to -type: x'' @ [CHR 0x0A])
   \<and> execute scenarioHost [] 0 [''-type'', ''x''] =
     Some (Inr \<lparr>out = \<lparr>stdout = [], stderr = ''find: Unknown argument to -type: x'' @ [CHR 0x0A],
                       exitCode = 1\<rparr>, fs = [], events = []\<rparr>)
   \<and> bare ''d''
   \<and> scanArgs [''d'', ''-bogus''] 2 [TExpr (EName ''*.txt'' False)] [] =
       ScanDone 2 [TExpr (EName ''*.txt'' False)] []"
proof -
  have nohelp: "\<not> hasHelpFlag scenarioHost [''d'', ''-bogus'', ''-print'']"
    "\<not> hasHelpFlag scenarioHost [''d'', ''-exec'', ''rm'', ''{}'']"
    "\<not> hasHelpFlag scenarioHost [''-type'', ''x'']"
    by (simp_all add: scenarioHost_def)
  have b: "list_all bare [''d'']" "startsWith ''-bogus'' ''-''" "''-bogus'' \<notin> set knownFlags"
    "list_all (\<lambda>a. \<not> isTerminator a) [''rm'', ''{}'']"
    by (simp_all add: bare_def startsWith_def knownFlags_def isTerminator_def)
  have t: "error (parseExpressions [''-type'', ''x''] 0) = Some (''find: Unknown argument to -type: x'' @ [CHR 0x0A])"
    by (simp add: parseExpressions_def)
  have bd: "bare ''d''" by (simp add: bare_def startsWith_def)
  from parse_error_result [of scenarioHost "[''-type'', ''x'']" "''find: Unknown argument to -type: x'' @ [CHR 0x0A]"
      "[]" 0 "''-bogus''" "[''-bogus'']" 2 "[TExpr (EName ''*.txt'' False)]" "[]" "[''rm'', ''{}'']" "[''d'']"
      "''d''"] bd
  have stop: "scanArgs [''d'', ''-bogus''] 2 [TExpr (EName ''*.txt'' False)] [] =
       ScanDone 2 [TExpr (EName ''*.txt'' False)] []"
    by (simp del: scanArgs.simps)
  from parse_error_result [of scenarioHost "[''-type'', ''x'']" "''find: Unknown argument to -type: x'' @ [CHR 0x0A]"
      "[]" 0 "''-bogus''" "[]" 7 "[TNot]" "[Print]" "[''rm'', ''{}'']" "[''d'']"]
    parse_error_result [of scenarioHost "[''-type'', ''x'']" "''find: Unknown argument to -type: x'' @ [CHR 0x0A]"
      "[]" 0 "''-bogus''" "[''-print'']" 2 "[TNot]" "[Print]" "[''rm'', ''{}'']" "[''d'']"]
    nohelp b t bd stop
  show ?thesis by (simp del: scanArgs.simps)
qed

theorem unreached_flag_no_error:
  "execute scenarioHost [] 3 [''-name'', ''*.txt'', ''d'', ''-bogus''] =
     Some (Inr \<lparr>out = \<lparr>stdout = ''d/c.txt'' @ [CHR 0x0A], stderr = [], exitCode = 0\<rparr>,
                fs = [],
                events = [EvStat ''/work/d'', EvStat ''/work/d'', EvReaddir ''/work/d'',
                          EvReaddir ''/work/d'', EvStat ''/work/d/c.txt'', EvMatch 1 ''d/c.txt'']\<rparr>)"
proof -
  have sp: "scanPath [''-name'', ''*.txt'', ''d'', ''-bogus''] (''.'', None, None) = (''d'', None, None)"
    by (simp add: startsWith_def PREDICATES_WITH_ARGS_def)
  have pr: "parseExpressions [''-name'', ''*.txt'', ''d'', ''-bogus''] 0 =
      \<lparr>expr = Some (EName ''*.txt'' False), pathIndex = 2, error = None, actions = []\<rparr>"
    by (simp add: parseExpressions_def buildTree_def andResults_def startsWith_def)
  have gl: "matchGlob ''d'' ''*.txt'' False = Inr False" "matchGlob ''c.txt'' ''*.txt'' False = Inr True"
    by (simp_all add: matchGlob_def regExpTest_def parseAtom_def consTerm_def isRegexSpecial_def
        code_def)
  show ?thesis
    by (simp add: execute_def sp pr truthy_def Let_def printed_def addStdout_def numeral_3_eq_3
        scenarioHost_def scenarioResolve_def scenarioStat_def scenarioReaddir_def scenarioEntries_def
        dirStat_def fileStat_def childPath_def startsWith_def
        nodeMatches_def nodeContext_def nodeName_def nodeRelativePath_def orElse_def lastSegment_def
        atOrBeyondMinDepth_def beyondMaxDepth_def logEvent_def pushMatch_def gl
        del: scanPath.simps)
qed

section \<open>Depth bounds\<close>

lemma findRecursive_step:
  "findRecursive h s env (Suc fuel) p d w =
     (case visitNode h s env p d w of
        Stop w' \<Rightarrow> Some (Inr w')
      | Throw x \<Rightarrow> Some (Inl x)
      | Descend es w' \<Rightarrow> findEntries h s env fuel p es (d + 1) w')"
  by (simp add: visitNode_def Let_def split: option.splits sum.splits)


lemma grows_refl: "grows w w []"
  by (simp add: grows_def)

lemma grows_trans: "grows w w1 evs \<Longrightarrow> grows w1 w2 evs' \<Longrightarrow> grows w w2 (evs @ evs')"
  by (simp add: grows_def)

lemma grows_newEvents: "grows w w' evs \<Longrightarrow> newEvents w w' = evs"
  by (simp add: grows_def newEvents_def)

lemma nodeMatches_gate:
  "nodeMatches h env p d st emp = Inr True \<Longrightarrow> atOrBeyondMinDepth (minDepth env) d"
  by (simp add: nodeMatches_def split: if_splits)

lemma visitNode_grows:
  assumes "visitNode h s env p d w = Stop w' \<or> visitNode h s env p d w = Descend es w'"
  shows "\<exists>evs. grows w w' evs \<and> list_all (nodeEvent env p d) evs
           \<and> (\<not> beyondMaxDepth (maxDepth env) d \<longrightarrow> take 1 evs = [EvStat p])"
proof (cases "beyondMaxDepth (maxDepth env) d")
  case True
  with assms have "w' = w" by (simp add: visitNode_def)
  then show ?thesis using grows_refl [of w] True by (intro exI [of _ "[]"]) simp
next
  case beyond: False
  show ?thesis
  proof (cases "stat h s p")
    case None
    with beyond assms have "w' = logEvent (EvStat p) w" by (simp add: visitNode_def)
    then show ?thesis
      by (intro exI [of _ "[EvStat p]"]) (simp add: grows_def logEvent_def)
  next
    case (Some st)
    let ?listed = "\<not> stat_isFile st \<and> stat_isDirectory st"
    let ?emp = "if stat_isFile st then stat_size st = Some 0
                else if stat_isDirectory st then readdir h s p = Some [] else False"
    from assms beyond Some obtain b where b: "nodeMatches h env p d st ?emp = Inr b"
      by (cases "nodeMatches h env p d st ?emp")
         (auto simp: visitNode_def Let_def split: if_splits option.splits)
    have gate: "atOrBeyondMinDepth (minDepth env) d" if "b"
      using that b nodeMatches_gate [of h env p d st ?emp] by simp
    let ?evs = "[EvStat p] @ (if ?listed then [EvReaddir p] else [])
                @ (if b then [EvMatch d (nodeRelativePath env p)] else [])
                @ (if stat_isDirectory st then [EvReaddir p] else [])"
    from assms beyond Some b have "grows w w' ?evs"
      by (auto simp: visitNode_def Let_def grows_def logEvent_def pushMatch_def
          split: if_splits option.splits)
    moreover have "list_all (nodeEvent env p d) ?evs"
      using gate by simp
    moreover have "take 1 ?evs = [EvStat p]" by simp
    ultimately show ?thesis by blast
  qed
qed


lemma nodeMatches_minDepth:
  "nodeMatches h (env\<lparr>minDepth := m\<rparr>) p d st emp =
     (if atOrBeyondMinDepth m d then nodeMatches h (env\<lparr>minDepth := None\<rparr>) p d st emp
      else Inr False)"
proof -
  have "nodeContext h (env\<lparr>minDepth := k\<rparr>) p st emp = nodeContext h env p st emp" for k
    by (simp add: nodeContext_def nodeName_def nodeRelativePath_def)
  then show ?thesis
    by (cases "env_expr env") (simp_all add: nodeMatches_def atOrBeyondMinDepth_def)
qed

lemma sameFs_log: "sameFs w1 w0 \<Longrightarrow> sameFs (logEvent ev w1) (logEvent ev w0)"
  by (simp add: sameFs_def logEvent_def)

lemma sameFs_push_left: "sameFs w1 w0 \<Longrightarrow> sameFs (pushMatch env p d w1) w0"
  by (simp add: sameFs_def pushMatch_def)

lemma sameFs_push_right: "sameFs w1 w0 \<Longrightarrow> sameFs w1 (pushMatch env p d w0)"
  by (simp add: sameFs_def pushMatch_def)

lemma visitNode_sameFs:
  assumes same: "sameFs w1 w0"
  shows "case visitNode h s (env\<lparr>minDepth := None\<rparr>) p d w0 of
           Stop w0' \<Rightarrow> (\<exists>w1'. visitNode h s (env\<lparr>minDepth := m\<rparr>) p d w1 = Stop w1' \<and> sameFs w1' w0')
         | Throw x \<Rightarrow> True
         | Descend es w0' \<Rightarrow>
             (\<exists>w1'. visitNode h s (env\<lparr>minDepth := m\<rparr>) p d w1 = Descend es w1' \<and> sameFs w1' w0')"
proof (cases "beyondMaxDepth (maxDepth env) d")
  case True
  with same show ?thesis by (simp add: visitNode_def)
next
  case beyond: False
  show ?thesis
  proof (cases "stat h s p")
    case None
    with beyond same show ?thesis by (simp add: visitNode_def sameFs_log)
  next
    case (Some st)
    let ?emp = "if stat_isFile st then stat_size st = Some 0
                else if stat_isDirectory st then readdir h s p = Some [] else False"
    show ?thesis
    proof (cases "nodeMatches h (env\<lparr>minDepth := None\<rparr>) p d st ?emp")
      case (Inl x)
      with beyond Some show ?thesis by (simp add: visitNode_def Let_def)
    next
      case (Inr b)
      let ?b' = "atOrBeyondMinDepth m d \<and> b"
      from Inr have m: "nodeMatches h (env\<lparr>minDepth := m\<rparr>) p d st ?emp = Inr ?b'"
        by (simp add: nodeMatches_minDepth)
      from same have pushes:
        "sameFs (if ?b' then pushMatch (env\<lparr>minDepth := m\<rparr>) p d v1 else v1)
                (if b then pushMatch (env\<lparr>minDepth := None\<rparr>) p d v0 else v0)"
        if "sameFs v1 v0" for v1 v0
        using that by (simp add: sameFs_push_left sameFs_push_right sameFs_def pushMatch_def)
      show ?thesis
        using beyond Some Inr m same pushes
        by (auto simp: visitNode_def Let_def sameFs_log split: option.splits)
    qed
  qed
qed


lemma findEntries_sameFs:
  assumes node: "\<And>q v1 v0 v0'. sameFs v1 v0 \<Longrightarrow>
      findRecursive h s (env\<lparr>minDepth := None\<rparr>) fuel q d v0 = Some (Inr v0') \<Longrightarrow>
      \<exists>v1'. findRecursive h s (env\<lparr>minDepth := m\<rparr>) fuel q d v1 = Some (Inr v1') \<and> sameFs v1' v0'"
    and same: "sameFs w1 w0"
    and run: "findEntries h s (env\<lparr>minDepth := None\<rparr>) fuel cur es d w0 = Some (Inr w0')"
  shows "\<exists>w1'. findEntries h s (env\<lparr>minDepth := m\<rparr>) fuel cur es d w1 = Some (Inr w1') \<and> sameFs w1' w0'"
  using same run
proof (induction es arbitrary: w1 w0)
  case Nil
  then show ?case by simp
next
  case (Cons e es)
  from Cons.prems(2) obtain v0 where
    first: "findRecursive h s (env\<lparr>minDepth := None\<rparr>) fuel (childPath cur e) d w0 = Some (Inr v0)"
    and rest: "findEntries h s (env\<lparr>minDepth := None\<rparr>) fuel cur es d v0 = Some (Inr w0')"
    by (auto split: option.splits sum.splits)
  from node [OF Cons.prems(1) first] obtain v1 where
    v1: "findRecursive h s (env\<lparr>minDepth := m\<rparr>) fuel (childPath cur e) d w1 = Some (Inr v1)"
    and sv: "sameFs v1 v0"
    by blast
  from Cons.IH [OF sv rest] v1 show ?case by simp
qed

lemma findRecursive_sameFs:
  "sameFs w1 w0 \<Longrightarrow>
   findRecursive h s (env\<lparr>minDepth := None\<rparr>) fuel p d w0 = Some (Inr w0') \<Longrightarrow>
   \<exists>w1'. findRecursive h s (env\<lparr>minDepth := m\<rparr>) fuel p d w1 = Some (Inr w1') \<and> sameFs w1' w0'"
proof (induction fuel arbitrary: p d w1 w0 w0')
  case 0
  then show ?case by simp
next
  case (Suc fuel)
  note visit = visitNode_sameFs [OF Suc.prems(1), where h = h and s = s and env = env and p = p and d = d and m = m]
  show ?case
  proof (cases "visitNode h s (env\<lparr>minDepth := None\<rparr>) p d w0")
    case (Stop v0)
    with Suc.prems(2) have "w0' = v0" by (simp add: findRecursive_step del: findRecursive.simps)
    with visit Stop show ?thesis by (auto simp: findRecursive_step simp del: findRecursive.simps)
  next
    case (Throw x)
    with Suc.prems(2) show ?thesis by (simp add: findRecursive_step del: findRecursive.simps)
  next
    case (Descend es v0)
    with Suc.prems(2) have run: "findEntries h s (env\<lparr>minDepth := None\<rparr>) fuel p es (Suc d) v0 = Some (Inr w0')"
      by (simp add: findRecursive_step del: findRecursive.simps)
    from visit Descend obtain v1 where
      v1: "visitNode h s (env\<lparr>minDepth := m\<rparr>) p d w1 = Descend es v1" and sv: "sameFs v1 v0"
      by auto
    have "\<exists>w1'. findEntries h s (env\<lparr>minDepth := m\<rparr>) fuel p es (Suc d) v1 = Some (Inr w1') \<and> sameFs w1' w0'"
    proof (rule findEntries_sameFs)
      show "\<exists>u1'. findRecursive h s (env\<lparr>minDepth := m\<rparr>) fuel q (Suc d) u1 = Some (Inr u1') \<and> sameFs u1' u0'"
        if "sameFs u1 u0" "findRecursive h s (env\<lparr>minDepth := None\<rparr>) fuel q (Suc d) u0 = Some (Inr u0')"
        for q u1 u0 u0'
        using that by (rule Suc.IH)
      show "sameFs v1 v0" by (rule sv)
      show "findEntries h s (env\<lparr>minDepth := None\<rparr>) fuel p es (Suc d) v0 = Some (Inr w0')" by (rule run)
    qed
    with v1 show ?thesis by (simp add: findRecursive_step del: findRecursive.simps)
  qed
qed

lemma nodeEvent_matchAt: "nodeEvent env p d ev \<Longrightarrow> matchAt env d ev"
  by (cases ev) simp_all

lemma matchAt_deeper: "matchAt env (Suc d) ev \<Longrightarrow> matchAt env d ev"
  by (cases ev) simp_all

lemma findEntries_grows:
  assumes node: "\<And>p w w'. findRecursive h s env fuel p d w = Some (Inr w') \<Longrightarrow>
      \<exists>evs. grows w w' evs \<and> list_all (matchAt env d) evs"
    and run: "findEntries h s env fuel cur es d w = Some (Inr w')"
  shows "\<exists>evs. grows w w' evs \<and> list_all (matchAt env d) evs"
  using run
proof (induction es arbitrary: w)
  case Nil
  then show ?case using grows_refl [of w] by (intro exI [of _ "[]"]) simp
next
  case (Cons e es)
  from Cons.prems obtain w1 where
    first: "findRecursive h s env fuel (childPath cur e) d w = Some (Inr w1)"
    and rest: "findEntries h s env fuel cur es d w1 = Some (Inr w')"
    by (auto split: option.splits sum.splits)
  from node [OF first] obtain evs1 where e1: "grows w w1 evs1" "list_all (matchAt env d) evs1"
    by blast
  from Cons.IH [OF rest] obtain evs2 where e2: "grows w1 w' evs2" "list_all (matchAt env d) evs2"
    by blast
  from grows_trans [OF e1(1) e2(1)] e1(2) e2(2) show ?case
    by (intro exI [of _ "evs1 @ evs2"]) simp
qed

lemma findRecursive_grows:
  "findRecursive h s env fuel p d w = Some (Inr w') \<Longrightarrow>
     \<exists>evs. grows w w' evs \<and> list_all (matchAt env d) evs"
proof (induction fuel arbitrary: p d w w')
  case 0
  then show ?case by simp
next
  case (Suc fuel)
  show ?case
  proof (cases "visitNode h s env p d w")
    case (Stop w1)
    with Suc.prems have "w' = w1" by (simp add: findRecursive_step del: findRecursive.simps)
    with visitNode_grows [of h s env p d w w' "[]"] Stop
    obtain evs where "grows w w' evs" "list_all (nodeEvent env p d) evs" by auto
    then show ?thesis
      using nodeEvent_matchAt [of env p d] by (intro exI [of _ evs]) (auto simp: list_all_iff)
  next
    case (Throw x)
    with Suc.prems show ?thesis by (simp add: findRecursive_step del: findRecursive.simps)
  next
    case (Descend es w1)
    with Suc.prems have run: "findEntries h s env fuel p es (Suc d) w1 = Some (Inr w')"
      by (simp add: findRecursive_step del: findRecursive.simps)
    from visitNode_grows [of h s env p d w w1 es] Descend
    obtain evs1 where e1: "grows w w1 evs1" "list_all (nodeEvent env p d) evs1" by auto
    have "\<exists>evs. grows w1 w' evs \<and> list_all (matchAt env (Suc d)) evs"
    proof (rule findEntries_grows)
      show "\<exists>evs. grows v v' evs \<and> list_all (matchAt env (Suc d)) evs"
        if "findRecursive h s env fuel q (Suc d) v = Some (Inr v')" for q v v'
        using that by (rule Suc.IH)
      show "findEntries h s env fuel p es (Suc d) w1 = Some (Inr w')" by (rule run)
    qed
    then obtain evs2 where e2: "grows w1 w' evs2" "list_all (matchAt env (Suc d)) evs2" by blast
    from e1(2) have "list_all (matchAt env d) evs1"
      using nodeEvent_matchAt [of env p d] by (auto simp: list_all_iff)
    moreover from e2(2) have "list_all (matchAt env d) evs2"
      using matchAt_deeper [of env d] by (auto simp: list_all_iff)
    ultimately show ?thesis
      using grows_trans [OF e1(1) e2(1)] by (intro exI [of _ "evs1 @ evs2"]) simp
  qed
qed

lemma findEntries_beyond:
  "beyondMaxDepth (maxDepth env) d \<Longrightarrow> findEntries h s env (Suc n) cur es d w = Some (Inr w)"
  by (induction es) (simp_all add: findRecursive_step visitNode_def del: findRecursive.simps)

lemma depth_zero_only_root:
  assumes mx: "maxDepth env = Some (Some 0)"
  shows "\<exists>r. findRecursive h s env (Suc (Suc n)) p 0 w = Some r"
    and "findRecursive h s env fuel p 0 w = Some (Inr w') \<Longrightarrow>
         \<exists>evs. grows w w' evs \<and> list_all (nodeEvent env p 0) evs"
proof -
  from mx have deep: "beyondMaxDepth (maxDepth env) (Suc 0)"
    by (simp add: beyondMaxDepth_def)
  show "\<exists>r. findRecursive h s env (Suc (Suc n)) p 0 w = Some r"
    by (cases "visitNode h s env p 0 w")
       (simp_all add: findRecursive_step findEntries_beyond [OF deep] del: findRecursive.simps)
  assume run: "findRecursive h s env fuel p 0 w = Some (Inr w')"
  then obtain f where f: "fuel = Suc f" by (cases fuel) auto
  show "\<exists>evs. grows w w' evs \<and> list_all (nodeEvent env p 0) evs"
  proof (cases "visitNode h s env p 0 w")
    case (Stop w1)
    with run f have "w' = w1" by (simp add: findRecursive_step del: findRecursive.simps)
    with visitNode_grows [of h s env p 0 w w' "[]"] Stop show ?thesis by auto
  next
    case (Throw x)
    with run f show ?thesis by (simp add: findRecursive_step del: findRecursive.simps)
  next
    case (Descend es w1)
    with run f have ent: "findEntries h s env f p es (Suc 0) w1 = Some (Inr w')"
      by (simp add: findRecursive_step del: findRecursive.simps)
    have "w' = w1"
    proof (cases f)
      case 0
      with ent show ?thesis by (cases es) (auto split: option.splits)
    next
      case (Suc k)
      with ent findEntries_beyond [OF deep, of h s k p es w1] show ?thesis by simp
    qed
    with visitNode_grows [of h s env p 0 w w' es] Descend show ?thesis by auto
  qed
qed


lemma findEntries_extends:
  assumes "findEntries h s env fuel cur es d w = Some (Inr w')"
  shows "\<exists>evs. grows w w' evs"
proof -
  have "\<exists>evs. grows w w' evs \<and> list_all (matchAt env d) evs"
  proof (rule findEntries_grows)
    show "\<exists>evs. grows v v' evs \<and> list_all (matchAt env d) evs"
      if "findRecursive h s env fuel q d v = Some (Inr v')" for q v v'
      using that by (rule findRecursive_grows)
    show "findEntries h s env fuel cur es d w = Some (Inr w')" by (rule assms)
  qed
  then show ?thesis by blast
qed

lemma findRecursive_stats_root:
  assumes run: "findRecursive h s env fuel p d w = Some (Inr w')"
    and within: "\<not> beyondMaxDepth (maxDepth env) d"
  shows "take 1 (newEvents w w') = [EvStat p]"
proof -
  from run obtain f where f: "fuel = Suc f" by (cases fuel) auto
  show ?thesis
  proof (cases "visitNode h s env p d w")
    case (Stop w1)
    with run f have "w' = w1" by (simp add: findRecursive_step del: findRecursive.simps)
    with visitNode_grows [of h s env p d w w' "[]"] Stop within grows_newEvents [of w w']
    show ?thesis by auto
  next
    case (Throw x)
    with run f show ?thesis by (simp add: findRecursive_step del: findRecursive.simps)
  next
    case (Descend es w1)
    with run f have ent: "findEntries h s env f p es (Suc d) w1 = Some (Inr w')"
      by (simp add: findRecursive_step del: findRecursive.simps)
    from findEntries_extends [OF ent] obtain evs2 where e2: "grows w1 w' evs2" by blast
    from visitNode_grows [of h s env p d w w1 es] Descend within
    obtain evs1 where e1: "grows w w1 evs1" "take 1 evs1 = [EvStat p]" by auto
    from e1(2) have "take 1 (evs1 @ evs2) = [EvStat p]" by (cases evs1) auto
    with grows_newEvents [OF grows_trans [OF e1(1) e2]] show ?thesis by simp
  qed
qed


text \<open>
  Claim C3. With \<open>maxDepth = 0\<close> a traversal returns (two units of fuel suffice) and stats
  and lists nothing but its root: every event is a stat or a listing of the root, or the
  report of the root at depth 0. With \<open>minDepth = m\<close>, in particular 1, the root is still
  statted first, nothing is reported at a depth below \<open>m\<close>, so the root is never
  appended to the matches whatever the expression says, and the matches are exactly the
  reports logged. \<open>minDepth\<close> never changes which nodes are traversed: a traversal that
  returns without \<open>minDepth\<close> returns with any \<open>minDepth\<close> too, with the same sequence of
  stats and listings.
\<close>

theorem depth_bounds:
  "(maxDepth env = Some (Some 0) \<longrightarrow>
      (\<exists>r. findRecursive h s env (Suc (Suc n)) p 0 w = Some r)
      \<and> (findRecursive h s env fuel p 0 w = Some (Inr w') \<longrightarrow>
            list_all (nodeEvent env p 0) (newEvents w w')))
   \<and> (minDepth env = Some (Some m) \<and> findRecursive h s env fuel p d w = Some (Inr w') \<longrightarrow>
        list_all (matchDepthFrom m) (newEvents w w')
        \<and> results w' = results w @ concat (map matchedPath (newEvents w w'))
        \<and> (\<not> beyondMaxDepth (maxDepth env) d \<longrightarrow> take 1 (newEvents w w') = [EvStat p]))
   \<and> (findRecursive h s (env\<lparr>minDepth := None\<rparr>) fuel p d w = Some (Inr w0) \<longrightarrow>
        (\<exists>w1. findRecursive h s (env\<lparr>minDepth := mn\<rparr>) fuel p d w = Some (Inr w1)
              \<and> filter isFsEvent (newEvents w w1) = filter isFsEvent (newEvents w w0)))"
proof -
  have a1: "\<exists>r. findRecursive h s env (Suc (Suc n)) p 0 w = Some r"
    if "maxDepth env = Some (Some 0)"
    using that by (rule depth_zero_only_root(1))
  have a2: "list_all (nodeEvent env p 0) (newEvents w w')"
    if "maxDepth env = Some (Some 0)" "findRecursive h s env fuel p 0 w = Some (Inr w')"
    using depth_zero_only_root(2) [OF that] grows_newEvents [of w w'] by auto
  have b: "list_all (matchDepthFrom m) (newEvents w w')
      \<and> results w' = results w @ concat (map matchedPath (newEvents w w'))"
    if mn: "minDepth env = Some (Some m)" and run: "findRecursive h s env fuel p d w = Some (Inr w')"
  proof -
    from findRecursive_grows [OF run] obtain evs where
      g: "grows w w' evs" and at: "list_all (matchAt env d) evs" by blast
    have "matchDepthFrom m ev" if "matchAt env d ev" for ev
      using that mn by (cases ev) (simp_all add: atOrBeyondMinDepth_def)
    with at have "list_all (matchDepthFrom m) evs" by (auto simp: list_all_iff)
    with g grows_newEvents [OF g] show ?thesis by (simp add: grows_def)
  qed
  have c: "\<exists>w1. findRecursive h s (env\<lparr>minDepth := mn\<rparr>) fuel p d w = Some (Inr w1)
      \<and> filter isFsEvent (newEvents w w1) = filter isFsEvent (newEvents w w0)"
    if run: "findRecursive h s (env\<lparr>minDepth := None\<rparr>) fuel p d w = Some (Inr w0)"
  proof -
    have "sameFs w w" by (simp add: sameFs_def)
    from findRecursive_sameFs [OF this run, of mn] obtain w1 where
      w1: "findRecursive h s (env\<lparr>minDepth := mn\<rparr>) fuel p d w = Some (Inr w1)" and same: "sameFs w1 w0"
      by blast
    from findRecursive_grows [OF run] obtain evs0 where g0: "grows w w0 evs0" by blast
    from findRecursive_grows [OF w1] obtain evs1 where g1: "grows w w1 evs1" by blast
    from same g0 g1 have "filter isFsEvent evs1 = filter isFsEvent evs0"
      by (simp add: sameFs_def grows_def)
    with w1 grows_newEvents [OF g0] grows_newEvents [OF g1] show ?thesis by simp
  qed
  from a1 a2 b c findRecursive_stats_root [of h s env fuel p d w w'] show ?thesis by blast
qed

theorem depth_bounds_witness:
  "maxDepth (scenarioEnv (Some (Some 0)) None None) = Some (Some 0)
   \<and> findRecursive scenarioHost [] (scenarioEnv (Some (Some 0)) None None) 2 ''/work'' 0 emptyWalk =
       Some (Inr \<lparr>results = [''.''],
                  trace = [EvStat ''/work'', EvReaddir ''/work'', EvMatch 0 ''.'', EvReaddir ''/work'']\<rparr>)
   \<and> list_all (nodeEvent (scenarioEnv (Some (Some 0)) None None) ''/work'' 0)
        [EvStat ''/work'', EvReaddir ''/work'', EvMatch 0 ''.'', EvReaddir ''/work'']
   \<and> minDepth (scenarioEnv None (Some (Some 1)) None) = Some (Some 1)
   \<and> findRecursive scenarioHost [] (scenarioEnv None (Some (Some 1)) None) 3 ''/work'' 0 emptyWalk =
       Some (Inr \<lparr>results = [''./a.txt'', ''./b.log'', ''./d'', ''./d/c.txt''],
                  trace = scenarioTrace False\<rparr>)
   \<and> list_all (matchDepthFrom 1) (scenarioTrace False)
   \<and> take 1 (scenarioTrace False) = [EvStat ''/work'']
   \<and> findRecursive scenarioHost [] (scenarioEnv None None None) 3 ''/work'' 0 emptyWalk =
       Some (Inr \<lparr>results = [''.'', ''./a.txt'', ''./b.log'', ''./d'', ''./d/c.txt''],
                  trace = scenarioTrace True\<rparr>)
   \<and> filter isFsEvent (scenarioTrace False) = filter isFsEvent (scenarioTrace True)"
proof -
  let ?e0 = "scenarioEnv (Some (Some 0)) None None"
  let ?e1 = "scenarioEnv None (Some (Some 1)) None"
  let ?e2 = "scenarioEnv None None None"
  let ?w0 = "\<lparr>results = [''.''],
              trace = [EvStat ''/work'', EvReaddir ''/work'', EvMatch 0 ''.'', EvReaddir ''/work'']\<rparr>"
  let ?w1 = "\<lparr>results = [''./a.txt'', ''./b.log'', ''./d'', ''./d/c.txt''], trace = scenarioTrace False\<rparr>"
  let ?w2 = "\<lparr>results = [''.'', ''./a.txt'', ''./b.log'', ''./d'', ''./d/c.txt''], trace = scenarioTrace True\<rparr>"
  have mx: "maxDepth ?e0 = Some (Some 0)" and mn: "minDepth ?e1 = Some (Some 1)"
    and en: "?e1\<lparr>minDepth := None\<rparr> = ?e2" "?e1\<lparr>minDepth := Some (Some 1)\<rparr> = ?e1"
    and within: "\<not> beyondMaxDepth (maxDepth ?e1) 0"
    by (simp_all add: scenarioEnv_def beyondMaxDepth_def)
  have r0: "findRecursive scenarioHost [] ?e0 2 ''/work'' 0 emptyWalk = Some (Inr ?w0)"
    by code_simp
  have r1: "findRecursive scenarioHost [] ?e1 3 ''/work'' 0 emptyWalk = Some (Inr ?w1)"
    by code_simp
  have r2: "findRecursive scenarioHost [] ?e2 3 ''/work'' 0 emptyWalk = Some (Inr ?w2)"
    by code_simp
  have ne: "newEvents emptyWalk \<lparr>results = rs, trace = evs\<rparr> = evs" for rs evs
    by (simp add: newEvents_def emptyWalk_def)
  from depth_bounds [where env = ?e0 and h = scenarioHost and s = "[]" and n = 0 and p = "''/work''"
      and w = emptyWalk and fuel = 2 and w' = ?w0 and d = 0] mx r0
  have a: "list_all (nodeEvent ?e0 ''/work'' 0)
        [EvStat ''/work'', EvReaddir ''/work'', EvMatch 0 ''.'', EvReaddir ''/work'']"
    by (simp add: ne numeral_2_eq_2)
  from depth_bounds [where env = ?e1 and h = scenarioHost and s = "[]" and p = "''/work''"
      and w = emptyWalk and fuel = 3 and w' = ?w1 and d = 0 and m = 1 and w0 = ?w2
      and mn = "Some (Some 1)"] mn r1 r2 en within
  have b: "list_all (matchDepthFrom 1) (scenarioTrace False)"
    "take 1 (scenarioTrace False) = [EvStat ''/work'']"
    "filter isFsEvent (scenarioTrace False) = filter isFsEvent (scenarioTrace True)"
    by (simp_all add: ne)
  from mx mn r0 r1 r2 a b show ?thesis by simp
qed

section \<open>The scenario\<close>

lemma lastSegment_append:
  assumes "CHR ''/'' \<in> set ys"
  shows "lastSegment (xs @ ys) = lastSegment ys"
proof -
  from assms have "CHR ''/'' \<in> set (rev ys)" by simp
  then have "takeWhile (\<lambda>c. c \<noteq> CHR ''/'') (rev ys @ rev xs) = takeWhile (\<lambda>c. c \<noteq> CHR ''/'') (rev ys)"
    by (intro takeWhile_append1) auto
  then show ?thesis by (simp add: lastSegment_def)
qed

lemma childPath_append: "childPath p e = (if p = ''/'' then [] else p) @ ''/'' @ e"
  by (simp add: childPath_def)

lemma lastSegment_childPath:
  "CHR ''/'' \<notin> set e \<Longrightarrow> lastSegment (childPath p e) = e"
proof -
  assume e: "CHR ''/'' \<notin> set e"
  have "lastSegment (childPath p e) = lastSegment (''/'' @ e)"
    unfolding childPath_append by (rule lastSegment_append) simp
  also have "\<dots> = e"
  proof -
    have "takeWhile (\<lambda>c. c \<noteq> CHR ''/'') (rev e @ ''/'') =
        rev e @ takeWhile (\<lambda>c. c \<noteq> CHR ''/'') ''/''"
      by (rule takeWhile_append2) (use e in auto)
    then show ?thesis by (simp add: lastSegment_def)
  qed
  finally show ?thesis .
qed

lemma childPath_not_parent: "e \<noteq> [] \<Longrightarrow> childPath p e \<noteq> p"
  by (auto simp: childPath_def)

lemma childPath_longer: "e \<noteq> [] \<Longrightarrow> length p < length (childPath p e)"
  by (cases e) (simp_all add: childPath_def)

lemma grandchild_not_base: "d \<noteq> [] \<Longrightarrow> childPath (childPath p d) e \<noteq> p"
proof
  assume d: "d \<noteq> []" and eq: "childPath (childPath p d) e = p"
  from d have "length p < length (childPath p d)" by (rule childPath_longer)
  moreover have "length (childPath p d) \<le> length (childPath (childPath p d) e)"
    using d by (cases d) (auto simp: childPath_def)
  ultimately show False using eq by simp
qed

lemma glob_txt:
  "matchGlob ''.'' ''*.txt'' False = Inr False"
  "matchGlob ''a.txt'' ''*.txt'' False = Inr True"
  "matchGlob ''b.log'' ''*.txt'' False = Inr False"
  "matchGlob ''d'' ''*.txt'' False = Inr False"
  "matchGlob ''c.txt'' ''*.txt'' False = Inr True"
  by (simp_all add: matchGlob_def regExpTest_def parseAtom_def consTerm_def isRegexSpecial_def code_def)

lemma parse_name_txt:
  "parseExpressions [''-name'', ''*.txt'', ''-print''] 0 =
     \<lparr>expr = Some (EName ''*.txt'' False), pathIndex = 3, error = None, actions = [Print]\<rparr>"
  by (simp add: parseExpressions_def buildTree_def andResults_def)

lemma scanPath_name_txt:
  "scanPath [''-name'', ''*.txt'', ''-print''] (''.'', None, None) = (''.'', None, None)"
  by (simp add: startsWith_def PREDICATES_WITH_ARGS_def)

text \<open>
  The traversal of the scenario at any base path, the root \<open>/\<close> included: each match is
  reported under the relative path the code computes for it.
\<close>

lemma scenario_walk:
  assumes sc: "holdsScenario h s base"
    and env: "env = \<lparr>searchPath = ''.'', basePath = base, maxDepth = None, minDepth = None,
            env_expr = Some (EName ''*.txt'' False), refTimes = m\<rparr>"
    and a: "a = childPath base ''a.txt''" and b: "b = childPath base ''b.log''"
    and d: "d = childPath base ''d''" and c: "c = childPath d ''c.txt''"
  shows "findRecursive h s env (Suc (Suc (Suc n))) base 0 \<lparr>results = [], trace = evs\<rparr> =
         Some (Inr \<lparr>results = [nodeRelativePath env a, nodeRelativePath env c],
                    trace = evs @ [EvStat base, EvReaddir base, EvReaddir base,
                                   EvStat a, EvMatch 1 (nodeRelativePath env a),
                                   EvStat b,
                                   EvStat d, EvReaddir d, EvReaddir d,
                                   EvStat c, EvMatch 2 (nodeRelativePath env c)]\<rparr>)"
proof -
  from sc obtain r fa fb dd fc where
    st: "stat h s base = Some r" "stat_isDirectory r" "\<not> stat_isFile r"
      "stat h s a = Some fa" "stat_isFile fa" "\<not> stat_isDirectory fa"
      "stat h s b = Some fb" "stat_isFile fb" "\<not> stat_isDirectory fb"
      "stat h s d = Some dd" "stat_isDirectory dd" "\<not> stat_isFile dd"
      "stat h s c = Some fc" "stat_isFile fc" "\<not> stat_isDirectory fc"
    and ls: "readdir h s base = Some [''a.txt'', ''b.log'', ''d'']"
      "readdir h s d = Some [''c.txt'']"
    unfolding a b c d
    by (auto simp: holdsScenario_def isDirectoryStat_def isFileStat_def split: option.splits)
  have ne: "a \<noteq> base" "b \<noteq> base" "d \<noteq> base" "c \<noteq> base"
    unfolding a b c d by (simp_all add: childPath_not_parent grandchild_not_base)
  have names: "nodeName env base = ''.''" "nodeName env a = ''a.txt''"
    "nodeName env b = ''b.log''" "nodeName env d = ''d''" "nodeName env c = ''c.txt''"
    using ne unfolding a b c d
    by (simp_all add: nodeName_def orElse_def lastSegment_childPath env) (simp add: lastSegment_def)
  have sel: "env_expr env = Some (EName ''*.txt'' False)" "minDepth env = None"
    by (simp_all add: env)
  have m0: "nodeMatches h env base 0 r emp = Inr False" for emp
    by (simp add: nodeMatches_def atOrBeyondMinDepth_def nodeContext_def names glob_txt sel)
  have ma: "nodeMatches h env a k fa emp = Inr True" for emp k
    by (simp add: nodeMatches_def atOrBeyondMinDepth_def nodeContext_def names glob_txt sel)
  have mb: "nodeMatches h env b k fb emp = Inr False" for emp k
    by (simp add: nodeMatches_def atOrBeyondMinDepth_def nodeContext_def names glob_txt sel)
  have md: "nodeMatches h env d k dd emp = Inr False" for emp k
    by (simp add: nodeMatches_def atOrBeyondMinDepth_def nodeContext_def names glob_txt sel)
  have mc: "nodeMatches h env c k fc emp = Inr True" for emp k
    by (simp add: nodeMatches_def atOrBeyondMinDepth_def nodeContext_def names glob_txt sel)
  have within: "\<not> beyondMaxDepth (maxDepth env) k" for k
    by (simp add: beyondMaxDepth_def env)
  have va: "findRecursive h s env (Suc f) a k w =
      Some (Inr (pushMatch env a k (logEvent (EvStat a) w)))" for f k w
    using st within by (simp add: findRecursive_step visitNode_def ma Let_def del: findRecursive.simps(2))
  have vb: "findRecursive h s env (Suc f) b k w = Some (Inr (logEvent (EvStat b) w))" for f k w
    using st within by (simp add: findRecursive_step visitNode_def mb Let_def del: findRecursive.simps(2))
  have vc: "findRecursive h s env (Suc f) c k w =
      Some (Inr (pushMatch env c k (logEvent (EvStat c) w)))" for f k w
    using st within by (simp add: findRecursive_step visitNode_def mc Let_def del: findRecursive.simps(2))
  have vd: "findRecursive h s env (Suc (Suc f)) d k w =
      Some (Inr (pushMatch env c (Suc k)
        (logEvent (EvStat c)
          (logEvent (EvReaddir d) (logEvent (EvReaddir d) (logEvent (EvStat d) w))))))" for f k w
    using st ls within
    by (simp add: findRecursive_step [of h s env "Suc f" d] visitNode_def md Let_def c [symmetric] vc
        del: findRecursive.simps(2))
  have "findRecursive h s env (Suc (Suc (Suc n))) base 0 \<lparr>results = [], trace = evs\<rparr> =
      Some (Inr (pushMatch env c 2
        (logEvent (EvStat c)
          (logEvent (EvReaddir d) (logEvent (EvReaddir d)
            (logEvent (EvStat d)
              (logEvent (EvStat b)
                (pushMatch env a 1 (logEvent (EvStat a)
                  (logEvent (EvReaddir base) (logEvent (EvReaddir base)
                    (logEvent (EvStat base) \<lparr>results = [], trace = evs\<rparr>))))))))))))"
    using st ls within
    by (simp add: findRecursive_step [of h s env "Suc (Suc n)" base] visitNode_def m0 Let_def
        a [symmetric] b [symmetric] d [symmetric] va vb vd
        numeral_2_eq_2 del: findRecursive.simps(2))
  then show ?thesis
    by (simp add: logEvent_def pushMatch_def del: findRecursive.simps(2))
qed

lemma scenario_run:
  assumes nh: "\<not> hasHelpFlag h [''-name'', ''*.txt'', ''-print'']"
    and base: "resolvePath h (cwd h) ''.'' = base"
    and sc: "holdsScenario h s base"
    and env: "env = \<lparr>searchPath = ''.'', basePath = base, maxDepth = None, minDepth = None,
            env_expr = Some (EName ''*.txt'' False), refTimes = Map.empty\<rparr>"
    and a: "a = childPath base ''a.txt''" and b: "b = childPath base ''b.log''"
    and d: "d = childPath base ''d''" and c: "c = childPath d ''c.txt''"
  shows "execute h s (Suc (Suc (Suc n))) [''-name'', ''*.txt'', ''-print''] =
     Some (Inr \<lparr>out = \<lparr>stdout = nodeRelativePath env a @ [CHR 0x0A] @ nodeRelativePath env c @ [CHR 0x0A],
                       stderr = [], exitCode = 0\<rparr>,
                fs = s,
                events = [EvStat base, EvStat base, EvReaddir base, EvReaddir base,
                          EvStat a, EvMatch 1 (nodeRelativePath env a),
                          EvStat b,
                          EvStat d, EvReaddir d, EvReaddir d,
                          EvStat c, EvMatch 2 (nodeRelativePath env c)]\<rparr>)"
proof -
  from sc obtain r where r: "stat h s base = Some r"
    by (auto simp: holdsScenario_def isDirectoryStat_def split: option.splits)
  note walk = scenario_walk [OF sc env a b d c, of n "[EvStat base]"]
  from nh base r walk show ?thesis
    by (simp add: execute_def scanPath_name_txt parse_name_txt truthy_def Let_def
        printed_def addStdout_def env [symmetric] del: findRecursive.simps(2) scanPath.simps)
qed

lemma scenario_execute:
  assumes nh: "\<not> hasHelpFlag h [''-name'', ''*.txt'', ''-print'']"
    and base: "resolvePath h (cwd h) ''.'' = base"
    and nr: "base \<noteq> ''/''"
    and sc: "holdsScenario h s base"
  shows "execute h s (Suc (Suc (Suc n))) [''-name'', ''*.txt'', ''-print''] =
     Some (Inr \<lparr>out = \<lparr>stdout = ''./a.txt'' @ [CHR 0x0A] @ ''./d/c.txt'' @ [CHR 0x0A],
                       stderr = [], exitCode = 0\<rparr>,
                fs = s,
                events = [EvStat base, EvStat base, EvReaddir base, EvReaddir base,
                          EvStat (base @ ''/a.txt''), EvMatch 1 ''./a.txt'',
                          EvStat (base @ ''/b.log''),
                          EvStat (base @ ''/d''), EvReaddir (base @ ''/d''), EvReaddir (base @ ''/d''),
                          EvStat (base @ ''/d/c.txt''), EvMatch 2 ''./d/c.txt'']\<rparr>)"
  using scenario_run [OF nh base sc refl refl refl refl refl, of n] nr
  by (simp add: childPath_def nodeRelativePath_def del: findRecursive.simps(2))

lemma scenario_execute_root:
  assumes nh: "\<not> hasHelpFlag h [''-name'', ''*.txt'', ''-print'']"
    and base: "resolvePath h (cwd h) ''.'' = ''/''"
    and sc: "holdsScenario h s ''/''"
  shows "execute h s (Suc (Suc (Suc n))) [''-name'', ''*.txt'', ''-print''] =
     Some (Inr \<lparr>out = \<lparr>stdout = ''./.txt'' @ [CHR 0x0A] @ ''.//c.txt'' @ [CHR 0x0A],
                       stderr = [], exitCode = 0\<rparr>,
                fs = s,
                events = [EvStat ''/'', EvStat ''/'', EvReaddir ''/'', EvReaddir ''/'',
                          EvStat ''/a.txt'', EvMatch 1 ''./.txt'',
                          EvStat ''/b.log'',
                          EvStat ''/d'', EvReaddir ''/d'', EvReaddir ''/d'',
                          EvStat ''/d/c.txt'', EvMatch 2 ''.//c.txt'']\<rparr>)"
  using scenario_run [OF nh base sc refl refl refl refl refl, of n]
  by (simp add: childPath_def nodeRelativePath_def del: findRecursive.simps(2))

lemma scenarioHost_holds: "holdsScenario scenarioHost [] ''/work''"
  by (simp add: holdsScenario_def isDirectoryStat_def isFileStat_def scenarioHost_def
      scenarioStat_def scenarioReaddir_def scenarioEntries_def dirStat_def fileStat_def childPath_def)

lemma scenarioHost_base:
  "\<not> hasHelpFlag scenarioHost [''-name'', ''*.txt'', ''-print'']"
  "resolvePath scenarioHost (cwd scenarioHost) ''.'' = ''/work''"
  by (simp_all add: scenarioHost_def scenarioResolve_def)

lemma rootHost_holds: "holdsScenario rootHost s ''/''"
  by (simp add: holdsScenario_def isDirectoryStat_def isFileStat_def rootHost_def scenarioHost_def
      scenarioStat_def scenarioEntries_def dirStat_def fileStat_def childPath_def underWork_def
      startsWith_def)

lemma rootHost_base:
  "\<not> hasHelpFlag rootHost [''-name'', ''*.txt'', ''-print'']"
  "resolvePath rootHost (cwd rootHost) ''.'' = ''/''"
  by (simp_all add: rootHost_def scenarioHost_def scenarioResolve_def)

text \<open>
  Claim C2, as amended. Over the tree of the scenario (the root holding \<open>a.txt\<close>, \<open>b.log\<close>
  and the directory \<open>d\<close> with \<open>c.txt\<close>), standing at any base path other than \<open>/\<close>, the
  arguments \<open>-name "*.txt" -print\<close> with the default search path and no depth bounds
  report exactly \<open>./a.txt\<close> and \<open>./d/c.txt\<close>, in that order: every match carries the search
  path as its prefix. Standard output is \<open>./a.txt\<close>, a newline, \<open>./d/c.txt\<close>, a newline;
  standard error is empty and the exit code is 0. Three units of fuel suffice.
\<close>

theorem scenario_name_txt:
  "\<not> hasHelpFlag h [''-name'', ''*.txt'', ''-print''] \<and> resolvePath h (cwd h) ''.'' = base
     \<and> base \<noteq> ''/'' \<and> holdsScenario h s base \<longrightarrow>
   execute h s (Suc (Suc (Suc n))) [''-name'', ''*.txt'', ''-print''] =
     Some (Inr \<lparr>out = \<lparr>stdout = ''./a.txt'' @ [CHR 0x0A] @ ''./d/c.txt'' @ [CHR 0x0A],
                       stderr = [], exitCode = 0\<rparr>,
                fs = s,
                events = [EvStat base, EvStat base, EvReaddir base, EvReaddir base,
                          EvStat (base @ ''/a.txt''), EvMatch 1 ''./a.txt'',
                          EvStat (base @ ''/b.log''),
                          EvStat (base @ ''/d''), EvReaddir (base @ ''/d''), EvReaddir (base @ ''/d''),
                          EvStat (base @ ''/d/c.txt''), EvMatch 2 ''./d/c.txt'']\<rparr>)"
  using scenario_execute [of h base s n] by blast

theorem scenario_name_txt_witness:
  "\<not> hasHelpFlag scenarioHost [''-name'', ''*.txt'', ''-print'']
   \<and> resolvePath scenarioHost (cwd scenarioHost) ''.'' = ''/work''
   \<and> ''/work'' \<noteq> ''/'' \<and> holdsScenario scenarioHost [] ''/work''
   \<and> execute scenarioHost [] 3 [''-name'', ''*.txt'', ''-print''] =
     Some (Inr \<lparr>out = \<lparr>stdout = ''./a.txt'' @ [CHR 0x0A] @ ''./d/c.txt'' @ [CHR 0x0A],
                       stderr = [], exitCode = 0\<rparr>,
                fs = [],
                events = [EvStat ''/work'', EvStat ''/work'', EvReaddir ''/work'', EvReaddir ''/work'',
                          EvStat ''/work/a.txt'', EvMatch 1 ''./a.txt'',
                          EvStat ''/work/b.log'',
                          EvStat ''/work/d'', EvReaddir ''/work/d'', EvReaddir ''/work/d'',
                          EvStat ''/work/d/c.txt'', EvMatch 2 ''./d/c.txt'']\<rparr>)"
  using scenario_name_txt [of scenarioHost "''/work''" "[]" 0] scenarioHost_base scenarioHost_holds
  by (simp add: numeral_3_eq_3 del: findRecursive.simps(2))

theorem scenario_paths_carry_prefix:
  "map_option (map_sum id (\<lambda>oc. stdout (out oc)))
     (execute scenarioHost [] 3 [''-name'', ''*.txt'', ''-print'']) =
     Some (Inr (''./a.txt'' @ [CHR 0x0A] @ ''./d/c.txt'' @ [CHR 0x0A]))
   \<and> ''./a.txt'' @ [CHR 0x0A] @ ''./d/c.txt'' @ [CHR 0x0A] \<noteq> ''a.txt'' @ [CHR 0x0A] @ ''d/c.txt'' @ [CHR 0x0A]"
  using scenario_execute [OF scenarioHost_base(1) scenarioHost_base(2) _ scenarioHost_holds, of 0]
  by (simp add: numeral_3_eq_3 del: findRecursive.simps(2))

text \<open>
  The side condition is needed. When the base path is \<open>/\<close> itself, the relative path of a
  node is cut one character further than the base path is long, which takes the first
  character of the entry with it: the same tree at the root is reported as \<open>./.txt\<close> and
  \<open>.//c.txt\<close>.
\<close>

theorem scenario_at_root:
  "execute rootHost [] 3 [''-name'', ''*.txt'', ''-print''] =
     Some (Inr \<lparr>out = \<lparr>stdout = ''./.txt'' @ [CHR 0x0A] @ ''.//c.txt'' @ [CHR 0x0A],
                       stderr = [], exitCode = 0\<rparr>,
                fs = [],
                events = [EvStat ''/'', EvStat ''/'', EvReaddir ''/'', EvReaddir ''/'',
                          EvStat ''/a.txt'', EvMatch 1 ''./.txt'',
                          EvStat ''/b.log'',
                          EvStat ''/d'', EvReaddir ''/d'', EvReaddir ''/d'',
                          EvStat ''/d/c.txt'', EvMatch 2 ''.//c.txt'']\<rparr>)"
  using scenario_execute_root [OF rootHost_base rootHost_holds, of "[]" 0]
  by (simp add: numeral_3_eq_3 del: findRecursive.simps(2))

end
